theory Spec2Isabelle
  imports Complex_Main
begin

section \<open>Python values and the runtime the analyzer calls\<close>

text \<open>
  A Python \<open>str\<close> is a sequence of Unicode code points, so text (sentences, phrases,
  pattern sources) is a list of code points. Dictionary keys, flag types, labels and class
  names are only ever compared for equality; they are kept as \<open>string\<close>.
\<close>

type_synonym ustr = "nat list"

definition ustr_of :: "string \<Rightarrow> ustr" where
  "ustr_of cs = map of_char cs"

text \<open>
  A compiled \<open>re.Pattern\<close> is represented by what \<open>finditer\<close> yields on a text: the
  \<open>(m.start(), m.end())\<close> pairs, left to right.
\<close>

type_synonym pattern = "ustr \<Rightarrow> (nat \<times> nat) list"

text \<open>
  What the source takes from Python itself and not from this repository: \<open>str.lower\<close>,
  the Unicode classes behind \<open>\s\<close>/\<open>str.strip\<close> and \<open>\w\<close>, \<open>re.compile\<close> with
  \<open>re.IGNORECASE\<close> (\<open>None\<close> is \<open>re.error\<close>), and \<open>round(x, 1)\<close> on a float. They are
  parameters of every definition below; the theorems hold for any such runtime.
\<close>

record runtime =
  str_lower :: "ustr \<Rightarrow> ustr"
  is_space :: "nat \<Rightarrow> bool"
  is_word :: "nat \<Rightarrow> bool"
  re_compile :: "ustr \<Rightarrow> pattern option"
  round1 :: "rat \<Rightarrow> rat"

datatype error = KeyError string | ReError ustr

definition ebind :: "error + 'a \<Rightarrow> ('a \<Rightarrow> error + 'b) \<Rightarrow> error + 'b" where
  "ebind m f = (case m of Inl e \<Rightarrow> Inl e | Inr x \<Rightarrow> f x)"

text \<open>A call that may raise and may also never return: \<open>None\<close> is non-termination.\<close>

definition bindr ::
  "(error + 'a) option \<Rightarrow> ('a \<Rightarrow> (error + 'b) option) \<Rightarrow> (error + 'b) option" where
  "bindr m f = (case m of None \<Rightarrow> None | Some (Inl e) \<Rightarrow> Some (Inl e) | Some (Inr x) \<Rightarrow> f x)"

text \<open>\<open>d[k]\<close> on a dictionary: \<open>KeyError\<close> when the key is missing.\<close>

definition dict_get :: "(string \<rightharpoonup> 'v) \<Rightarrow> string \<Rightarrow> error + 'v" where
  "dict_get d k = (case d k of None \<Rightarrow> Inl (KeyError k) | Some v \<Rightarrow> Inr v)"

text \<open>\<open>s[i:j]\<close> for \<open>0 \<le> i\<close>: Python clamps both ends to the length.\<close>

definition slice :: "ustr \<Rightarrow> nat \<Rightarrow> nat \<Rightarrow> ustr" where
  "slice s i j = take (j - i) (drop i s)"

text \<open>
  \<open>s.find(sub, start)\<close>: the lowest index \<open>\<ge> start\<close> where \<open>sub\<close> occurs, \<open>None\<close> for
  \<open>-1\<close>. The empty string is found at \<open>start\<close> itself whenever \<open>start \<le> len(s)\<close>.
\<close>

fun find_sub :: "ustr \<Rightarrow> ustr \<Rightarrow> nat option" where
  "find_sub sub [] = (if sub = [] then Some 0 else None)"
| "find_sub sub (c # cs) =
     (if take (length sub) (c # cs) = sub then Some 0
      else map_option Suc (find_sub sub cs))"

definition str_find :: "ustr \<Rightarrow> ustr \<Rightarrow> nat \<Rightarrow> nat option" where
  "str_find s sub start =
     (if length s < start then None
      else map_option (\<lambda>i. start + i) (find_sub sub (drop start s)))"

section \<open>split_sentences\<close>

definition strip :: "runtime \<Rightarrow> ustr \<Rightarrow> ustr" where
  "strip rt s = rev (dropWhile (is_space rt) (rev (dropWhile (is_space rt) s)))"

text \<open>\<open>re.sub(r"\s+", " ", t)\<close>: every maximal run of whitespace becomes one U+0020.\<close>

function collapse_ws :: "runtime \<Rightarrow> ustr \<Rightarrow> ustr" where
  "collapse_ws rt [] = []"
| "collapse_ws rt (c # cs) =
     (if is_space rt c then 32 # collapse_ws rt (dropWhile (is_space rt) cs)
      else c # collapse_ws rt cs)"
  by pat_completeness auto
termination
  by (relation "measure (\<lambda>(rt, s). length s)")
     (auto simp: length_dropWhile_le less_Suc_eq_le)

text \<open>
  \<open>re.split(r"(?<=[.!?])\s+", t)\<close>: a whitespace run is a separator when the character
  just before it is one of \<open>.\<close> \<open>!\<close> \<open>?\<close>; \<open>cur\<close> is the piece read so far.
\<close>

function split_after :: "runtime \<Rightarrow> ustr \<Rightarrow> ustr \<Rightarrow> ustr list" where
  "split_after rt cur [] = [cur]"
| "split_after rt cur (c # cs) =
     (if is_space rt c \<and> cur \<noteq> [] \<and> last cur \<in> {46, 33, 63}
      then cur # split_after rt [] (dropWhile (is_space rt) cs)
      else split_after rt (cur @ [c]) cs)"
  by pat_completeness auto
termination
  by (relation "measure (\<lambda>(rt, cur, s). length s)")
     (auto simp: length_dropWhile_le less_Suc_eq_le)

definition split_sentences :: "runtime \<Rightarrow> ustr \<Rightarrow> ustr list" where
  "split_sentences rt t0 =
     (let t = collapse_ws rt (strip rt t0) in
      if t = [] then []
      else let parts = split_after rt [] t in
           map (strip rt) (filter (\<lambda>p. strip rt p \<noteq> []) parts))"

section \<open>Span matching\<close>

record span =
  span_start :: nat
  span_end :: nat
  span_text :: ustr

definition find_spans_regex :: "pattern \<Rightarrow> ustr \<Rightarrow> span list" where
  "find_spans_regex pat t =
     map (\<lambda>(a, b). \<lparr>span_start = a, span_end = b, span_text = slice t a b\<rparr>) (pat t)"

text \<open>
  The \<open>while True\<close> loop of \<open>find_phrase_spans\<close> for one lowercased phrase. It leaves
  only when \<open>find\<close> answers \<open>-1\<close>, so it is a partial function.
\<close>

partial_function (option) phrase_loop ::
  "ustr \<Rightarrow> ustr \<Rightarrow> ustr \<Rightarrow> nat \<Rightarrow> span list \<Rightarrow> span list option" where
  "phrase_loop text_l p_l original start spans =
     (case str_find text_l p_l start of
        None \<Rightarrow> Some spans
      | Some idx \<Rightarrow>
          phrase_loop text_l p_l original (idx + length p_l)
            (spans @ [\<lparr>span_start = idx, span_end = idx + length p_l,
                       span_text = slice original idx (idx + length p_l)\<rparr>]))"

declare phrase_loop.simps [code]

text \<open>The \<open>for p in phrases\<close> loop around it.\<close>

fun phrases_loop ::
  "runtime \<Rightarrow> ustr \<Rightarrow> ustr list \<Rightarrow> ustr \<Rightarrow> span list \<Rightarrow> span list option" where
  "phrases_loop rt text_l [] original spans = Some spans"
| "phrases_loop rt text_l (p # ps) original spans =
     (case phrase_loop text_l (str_lower rt p) original 0 spans of
        None \<Rightarrow> None
      | Some spans' \<Rightarrow> phrases_loop rt text_l ps original spans')"

definition find_phrase_spans ::
  "runtime \<Rightarrow> ustr \<Rightarrow> ustr list \<Rightarrow> ustr \<Rightarrow> span list option" where
  "find_phrase_spans rt text_l phrases original = phrases_loop rt text_l phrases original []"

record flag =
  flag_type :: string
  flag_label :: string
  flag_spans :: "span list"

definition make_flag :: "string \<Rightarrow> string \<Rightarrow> span list \<Rightarrow> flag" where
  "make_flag ft lbl spans = \<lparr>flag_type = ft, flag_label = lbl, flag_spans = spans\<rparr>"

section \<open>The Analyzer\<close>

type_synonym class_rule = "(string \<times> string list) list"

text \<open>
  The four loaded JSON documents. \<open>sc\<close> and its rules are association lists: the order of
  the classes in the document is kept, and \<open>if rule:\<close> asks whether a rule has any key.
\<close>

record analyzer =
  lex :: "string \<rightharpoonup> ustr list"
  wt :: "string \<rightharpoonup> (string \<rightharpoonup> int)"
  sc :: "(string \<times> class_rule) list"
  re_number_unit :: pattern
  re_timeframe :: pattern
  re_baseline :: pattern
  re_scope :: pattern
  re_passive :: pattern



subsection \<open>analyze_sentence: spans and features\<close>

text \<open>The thirteen span lists \<open>analyze_sentence\<close> holds in local variables.\<close>

record span_lists =
  outcome_spans :: "span list"
  speed_spans :: "span list"
  hedge_spans :: "span list"
  super_spans :: "span list"
  proof_spans :: "span list"
  buzz_spans :: "span list"
  mech_spans :: "span list"
  values_spans :: "span list"
  metric_spans :: "span list"
  timeframe_spans :: "span list"
  baseline_spans :: "span list"
  scope_spans :: "span list"
  passive_spans :: "span list"

text \<open>\<open>find_phrase_spans(s_l, self.lex[k], s)\<close>\<close>

definition lex_spans ::
  "runtime \<Rightarrow> (string \<rightharpoonup> ustr list) \<Rightarrow> string \<Rightarrow> ustr \<Rightarrow> ustr \<Rightarrow> (error + span list) option" where
  "lex_spans rt lx k s_l s =
     (case lx k of
        None \<Rightarrow> Some (Inl (KeyError k))
      | Some phrases \<Rightarrow> map_option Inr (find_phrase_spans rt s_l phrases s))"

definition collect_spans :: "runtime \<Rightarrow> analyzer \<Rightarrow> ustr \<Rightarrow> (error + span_lists) option" where
  "collect_spans rt A s =
     (let s_l = str_lower rt s in
      bindr (lex_spans rt (lex A) ''outcome_verbs'' s_l s) (\<lambda>outcome.
      bindr (lex_spans rt (lex A) ''speed_words'' s_l s) (\<lambda>speed.
      bindr (lex_spans rt (lex A) ''hedges'' s_l s) (\<lambda>hedge.
      bindr (lex_spans rt (lex A) ''superlatives'' s_l s) (\<lambda>super.
      bindr (lex_spans rt (lex A) ''proof_theater'' s_l s) (\<lambda>proof.
      bindr (lex_spans rt (lex A) ''buzzwords'' s_l s) (\<lambda>buzz.
      bindr (lex_spans rt (lex A) ''mechanism_tokens'' s_l s) (\<lambda>mech.
      bindr (lex_spans rt (lex A) ''values_language'' s_l s) (\<lambda>vals.
      Some (Inr \<lparr>outcome_spans = outcome, speed_spans = speed, hedge_spans = hedge,
                 super_spans = super, proof_spans = proof, buzz_spans = buzz,
                 mech_spans = mech, values_spans = vals,
                 metric_spans = find_spans_regex (re_number_unit A) s,
                 timeframe_spans = find_spans_regex (re_timeframe A) s,
                 baseline_spans = find_spans_regex (re_baseline A) s,
                 scope_spans = find_spans_regex (re_scope A) s,
                 passive_spans = find_spans_regex (re_passive A) s\<rparr>))))))))))"

record feature_map =
  outcome_present :: bool
  speed_present :: bool
  hedge_present :: bool
  superlative_present :: bool
  proof_implied :: bool
  buzzword_present :: bool
  mechanism_present :: bool
  values_present :: bool
  metric_present :: bool
  timeframe_present :: bool
  baseline_present :: bool
  scope_present :: bool
  passive_present :: bool

definition features_of :: "span_lists \<Rightarrow> feature_map" where
  "features_of sp =
     \<lparr>outcome_present = (outcome_spans sp \<noteq> []),
      speed_present = (speed_spans sp \<noteq> []),
      hedge_present = (hedge_spans sp \<noteq> []),
      superlative_present = (super_spans sp \<noteq> []),
      proof_implied = (proof_spans sp \<noteq> []),
      buzzword_present = (buzz_spans sp \<noteq> []),
      mechanism_present = (mech_spans sp \<noteq> []),
      values_present = (values_spans sp \<noteq> []),
      metric_present = (metric_spans sp \<noteq> []),
      timeframe_present = (timeframe_spans sp \<noteq> []),
      baseline_present = (baseline_spans sp \<noteq> []),
      scope_present = (scope_spans sp \<noteq> []),
      passive_present = (passive_spans sp \<noteq> [])\<rparr>"

text \<open>\<open>features.get(k, False)\<close>\<close>

definition features_get :: "feature_map \<Rightarrow> string \<Rightarrow> bool" where
  "features_get f k =
     (if k = ''outcome_present'' then outcome_present f
      else if k = ''speed_present'' then speed_present f
      else if k = ''hedge_present'' then hedge_present f
      else if k = ''superlative_present'' then superlative_present f
      else if k = ''proof_implied'' then proof_implied f
      else if k = ''buzzword_present'' then buzzword_present f
      else if k = ''mechanism_present'' then mechanism_present f
      else if k = ''values_present'' then values_present f
      else if k = ''metric_present'' then metric_present f
      else if k = ''timeframe_present'' then timeframe_present f
      else if k = ''baseline_present'' then baseline_present f
      else if k = ''scope_present'' then scope_present f
      else if k = ''passive_present'' then passive_present f
      else False)"

subsection \<open>analyze_sentence: semantic class\<close>

text \<open>
  Lines 100 to 104. Only the entry named \<open>values_non_operational\<close> is read. \<open>if rule:\<close>
  skips an absent rule and a rule with no key; \<open>rule["requires"]\<close> is read before the
  first \<open>all\<close>, \<open>rule["forbids"]\<close> only when the first \<open>all\<close> holds.
\<close>

definition semantic_class_of :: "(string \<times> class_rule) list \<Rightarrow> feature_map \<Rightarrow> error + string" where
  "semantic_class_of c f =
     (case map_of c ''values_non_operational'' of
        None \<Rightarrow> Inr ''operational_or_mixed''
      | Some rule \<Rightarrow>
          if rule = [] then Inr ''operational_or_mixed''
          else ebind (dict_get (map_of rule) ''requires'') (\<lambda>req.
                 if list_all (features_get f) req
                 then ebind (dict_get (map_of rule) ''forbids'') (\<lambda>forb.
                        if list_all (\<lambda>k. \<not> features_get f k) forb
                        then Inr ''values_non_operational''
                        else Inr ''operational_or_mixed'')
                 else Inr ''operational_or_mixed''))"

subsection \<open>analyze_sentence: penalties and bonuses\<close>

text \<open>
  One \<open>if cond: penalties += P[name]; flags.append(make_flag(name, label, spans))\<close>
  statement, on the pair of the running total and the flag list.
\<close>

definition add_penalty ::
  "(string \<rightharpoonup> int) \<Rightarrow> bool \<Rightarrow> string \<Rightarrow> string \<Rightarrow> span list \<Rightarrow> int \<times> flag list \<Rightarrow>
   error + int \<times> flag list" where
  "add_penalty P c name lbl spans st =
     (if c then ebind (dict_get P name) (\<lambda>w. Inr (fst st + w, snd st @ [make_flag name lbl spans]))
      else Inr st)"

text \<open>
  \<open>re.search(r"\b(discovery|strategy|execution|optimization|planning process|customer journey)\b", s_l)\<close>:
  \<open>\b\<close> holds at a position when exactly one of its two neighbours is a word character.
\<close>

definition process_words :: "ustr list" where
  "process_words = map ustr_of [''discovery'', ''strategy'', ''execution'', ''optimization'',
     ''planning process'', ''customer journey'']"

definition word_boundary :: "runtime \<Rightarrow> ustr \<Rightarrow> nat \<Rightarrow> bool" where
  "word_boundary rt s i =
     ((0 < i \<and> is_word rt (s ! (i - 1))) \<noteq> (i < length s \<and> is_word rt (s ! i)))"

definition process_search :: "runtime \<Rightarrow> ustr \<Rightarrow> bool" where
  "process_search rt s =
     list_ex (\<lambda>i. list_ex (\<lambda>w. word_boundary rt s i \<and> take (length w) (drop i s) = w
                              \<and> word_boundary rt s (i + length w)) process_words)
       [0..<Suc (length s)]"

text \<open>Lines 113 to 151, in the order of the source.\<close>

definition penalties_of ::
  "runtime \<Rightarrow> (string \<rightharpoonup> int) \<Rightarrow> feature_map \<Rightarrow> span_lists \<Rightarrow> ustr \<Rightarrow> ustr \<Rightarrow>
   error + int \<times> flag list" where
  "penalties_of rt P f sp s s_l =
     ebind (add_penalty P (outcome_present f \<and> \<not> metric_present f)
              ''outcome_without_metric'' ''Outcome claim without metric''
              (outcome_spans sp) (0, [])) (\<lambda>st.
     ebind (add_penalty P (speed_present f \<and> \<not> timeframe_present f)
              ''speed_without_timeframe'' ''Speed claim without timeframe''
              (speed_spans sp) st) (\<lambda>st.
     ebind (add_penalty P (outcome_present f \<and> \<not> baseline_present f)
              ''outcome_without_baseline'' ''Outcome claim without baseline''
              (outcome_spans sp) st) (\<lambda>st.
     ebind (add_penalty P (outcome_present f \<and> \<not> scope_present f)
              ''outcome_without_scope'' ''Outcome claim without scope''
              (outcome_spans sp) st) (\<lambda>st.
     ebind (add_penalty P (proof_implied f)
              ''proof_implied_no_evidence'' ''Proof implied without evidence structure''
              (proof_spans sp) st) (\<lambda>st.
     ebind (add_penalty P (buzzword_present f \<and> \<not> mechanism_present f)
              ''buzzword_no_mechanism'' ''Buzzword used as mechanism substitute''
              (buzz_spans sp) st) (\<lambda>st.
     ebind (add_penalty P (outcome_present f \<and> \<not> mechanism_present f)
              ''outcome_without_mechanism'' ''Outcome claim without concrete mechanism''
              (outcome_spans sp) st) (\<lambda>st.
     ebind (add_penalty P (process_search rt s_l \<and> \<not> mechanism_present f)
              ''process_no_levers'' ''Process language without levers''
              [\<lparr>span_start = 0, span_end = length s, span_text = s\<rparr>] st) (\<lambda>st.
     ebind (add_penalty P (passive_present f)
              ''passive_voice'' ''Passive voice / agency evasion''
              (passive_spans sp) st) (\<lambda>st.
     add_penalty P (superlative_present f \<and> \<not> metric_present f)
              ''superlative_unbounded'' ''Superlative without constraint''
              (super_spans sp) st)))))))))"

text \<open>One \<open>if features[name]: bonus += B[name]\<close> statement.\<close>

definition add_bonus :: "(string \<rightharpoonup> int) \<Rightarrow> bool \<Rightarrow> string \<Rightarrow> int \<Rightarrow> error + int" where
  "add_bonus B c name b = (if c then ebind (dict_get B name) (\<lambda>w. Inr (b + w)) else Inr b)"

definition bonus_of :: "(string \<rightharpoonup> int) \<Rightarrow> feature_map \<Rightarrow> error + int" where
  "bonus_of B f =
     ebind (add_bonus B (metric_present f) ''metric_present'' 0) (\<lambda>b.
     ebind (add_bonus B (timeframe_present f) ''timeframe_present'' b) (\<lambda>b.
     ebind (add_bonus B (baseline_present f) ''baseline_present'' b) (\<lambda>b.
     ebind (add_bonus B (mechanism_present f) ''mechanism_present'' b) (\<lambda>b.
     add_bonus B (scope_present f) ''scope_present'' b))))"

subsection \<open>analyze_sentence\<close>

record breakdown =
  penalties :: int
  bonus :: int

record sentence_analysis =
  sentence :: ustr
  semantic_class :: string
  features :: feature_map
  flags :: "flag list"
  score_breakdown :: breakdown
  total_score :: int

definition analyze_sentence ::
  "runtime \<Rightarrow> analyzer \<Rightarrow> ustr \<Rightarrow> (error + sentence_analysis) option" where
  "analyze_sentence rt A s =
     bindr (collect_spans rt A s) (\<lambda>sp. Some (
       let f = features_of sp in
       ebind (semantic_class_of (sc A) f) (\<lambda>cls.
       ebind (dict_get (wt A) ''penalties'') (\<lambda>P.
       ebind (dict_get (wt A) ''bonuses'') (\<lambda>B.
       ebind (penalties_of rt P f sp s (str_lower rt s)) (\<lambda>st.
       ebind (bonus_of B f) (\<lambda>bon.
       Inr \<lparr>sentence = s, semantic_class = cls, features = f, flags = snd st,
            score_breakdown = \<lparr>penalties = fst st, bonus = bon\<rparr>,
            total_score = max 0 (min 100 (fst st - bon))\<rparr>)))))))"

section \<open>analyze_text\<close>

record overall =
  score_mean :: rat
  score_worst_sentence :: "int option"
  pct_sentences_high_bs :: "rat option"
  overall_label :: string
  n_sentences :: nat

record analysis_result =
  result_overall :: overall
  result_sentences :: "sentence_analysis list"

text \<open>The inner function \<open>label\<close>.\<close>

definition label :: "rat \<Rightarrow> string" where
  "label x =
     (if x \<le> 25 then ''Solid / operational''
      else if x \<le> 50 then ''Soft marketing''
      else if x \<le> 75 then ''High BS risk''
      else ''Persuasion fog'')"

text \<open>
  The \<open>overall\<close> dictionary of a non-empty list of analyses. \<open>mean\<close> and \<open>pct_high\<close> are
  Python floats, the correctly rounded quotients of two integers; they are kept as the
  exact quotients here. The comparisons of \<open>label\<close> with 25, 50 and 75 come out the same
  on both as long as there are fewer than \<open>2 ^ 49\<close> sentences, since the exact mean is
  then either at most the threshold or above it by more than the float spacing there.
\<close>

definition overall_of :: "runtime \<Rightarrow> sentence_analysis list \<Rightarrow> overall" where
  "overall_of rt analyses =
     (let scores = map total_score analyses;
          mean = of_int (sum_list scores) / of_nat (length scores);
          worst = Max (set scores);
          pct_high = 100 * of_nat (length (filter (\<lambda>x. 51 \<le> x) scores)) / of_nat (length scores)
      in \<lparr>score_mean = round1 rt mean,
          score_worst_sentence = Some worst,
          pct_sentences_high_bs = Some (round1 rt pct_high),
          overall_label = label mean,
          n_sentences = length analyses\<rparr>)"

text \<open>The list comprehension \<open>[self.analyze_sentence(s) for s in sents]\<close>.\<close>

fun analyze_all ::
  "runtime \<Rightarrow> analyzer \<Rightarrow> ustr list \<Rightarrow> (error + sentence_analysis list) option" where
  "analyze_all rt A [] = Some (Inr [])"
| "analyze_all rt A (s # ss) =
     bindr (analyze_sentence rt A s) (\<lambda>a.
     bindr (analyze_all rt A ss) (\<lambda>rest. Some (Inr (a # rest))))"

definition analyze_text :: "runtime \<Rightarrow> analyzer \<Rightarrow> ustr \<Rightarrow> (error + analysis_result) option" where
  "analyze_text rt A t =
     bindr (analyze_all rt A (split_sentences rt t)) (\<lambda>analyses.
       Some (Inr (
         if analyses = []
         then \<lparr>result_overall =
                 \<lparr>score_mean = 0, score_worst_sentence = None, pct_sentences_high_bs = None,
                  overall_label = ''Empty'', n_sentences = 0\<rparr>,
               result_sentences = []\<rparr>
         else \<lparr>result_overall = overall_of rt analyses, result_sentences = analyses\<rparr>)))"

section \<open>A concrete runtime and rule configuration\<close>

text \<open>
  The general theorems quantify over the runtime. To run the analyzer on concrete
  sentences a runtime is fixed that agrees with Python on the text used below: ASCII, and
  U+0130 (capital I with dot above), whose lowercase is the two code points U+0069 U+0307.
\<close>

definition lower_cp :: "nat \<Rightarrow> ustr" where
  "lower_cp c = (if 65 \<le> c \<and> c \<le> 90 then [c + 32] else if c = 304 then [105, 775] else [c])"

definition ascii_space :: "nat \<Rightarrow> bool" where
  "ascii_space c = (c \<in> {9, 10, 11, 12, 13, 28, 29, 30, 31, 32})"

definition ascii_word :: "nat \<Rightarrow> bool" where
  "ascii_word c = ((48 \<le> c \<and> c \<le> 57) \<or> (65 \<le> c \<and> c \<le> 90) \<or> c = 95 \<or> (97 \<le> c \<and> c \<le> 122))"

definition ascii_lower :: "nat \<Rightarrow> nat" where
  "ascii_lower c = (if 65 \<le> c \<and> c \<le> 90 then c + 32 else c)"

text \<open>
  A pattern made of ASCII letters, digits and spaces only has no metacharacter: compiled
  with \<open>re.IGNORECASE\<close> it matches its own text, letter case apart, and \<open>finditer\<close> gives
  the occurrences left to right, each search starting where the last match ended. Other
  sources are not handled by this stand-in.
\<close>

function lit_scan :: "ustr \<Rightarrow> nat \<Rightarrow> ustr \<Rightarrow> (nat \<times> nat) list" where
  "lit_scan p i [] = []"
| "lit_scan p i (c # cs) =
     (if p \<noteq> [] \<and> take (length p) (c # cs) = p
      then (i, i + length p) # lit_scan p (i + length p) (drop (length p) (c # cs))
      else lit_scan p (Suc i) cs)"
  by pat_completeness auto
termination
  by (relation "measure (\<lambda>(p, i, t). length t)") auto

definition literal_pattern :: "ustr \<Rightarrow> pattern" where
  "literal_pattern src = (\<lambda>t. lit_scan (map ascii_lower src) 0 (map ascii_lower t))"

definition literal_compile :: "ustr \<Rightarrow> pattern option" where
  "literal_compile src =
     (if src \<noteq> [] \<and> list_all (\<lambda>c. c = 32 \<or> (ascii_word c \<and> c \<noteq> 95)) src
      then Some (literal_pattern src) else None)"

text \<open>
  Rounding to one decimal, halves to the even digit. Python rounds the float nearest to
  the quotient, which gives the same tenth unless the quotient lies exactly halfway
  between two tenths; nothing below is evaluated at such a tie.
\<close>

definition round_half_even1 :: "rat \<Rightarrow> rat" where
  "round_half_even1 x =
     (let y = x * 10; n = \<lfloor>y\<rfloor>; d = y - of_int n
      in of_int (if d < 1 / 2 then n else if 1 / 2 < d then n + 1
                 else if even n then n else n + 1) / 10)"

definition sample_rt :: runtime where
  "sample_rt = \<lparr>str_lower = (\<lambda>s. concat (map lower_cp s)), is_space = ascii_space,
                is_word = ascii_word, re_compile = literal_compile,
                round1 = round_half_even1\<rparr>"

definition sample_lex :: "string \<rightharpoonup> ustr list" where
  "sample_lex = map_of
     [(''outcome_verbs'', [ustr_of ''increase'', ustr_of ''grew'']),
      (''speed_words'', [ustr_of ''fast'']),
      (''hedges'', [ustr_of ''may'']),
      (''superlatives'', [ustr_of ''best'']),
      (''proof_theater'', [ustr_of ''proven'']),
      (''buzzwords'', [ustr_of ''synergy'']),
      (''mechanism_tokens'', [ustr_of ''by automating'']),
      (''values_language'', [ustr_of ''we believe''])]"


definition sample_penalties :: "string \<rightharpoonup> int" where
  "sample_penalties = map_of
     [(''outcome_without_metric'', 25), (''speed_without_timeframe'', 15),
      (''outcome_without_baseline'', 10), (''outcome_without_scope'', 10),
      (''proof_implied_no_evidence'', 15), (''buzzword_no_mechanism'', 10),
      (''outcome_without_mechanism'', 15), (''process_no_levers'', 10),
      (''passive_voice'', 5), (''superlative_unbounded'', 10)]"

definition sample_bonuses :: "string \<rightharpoonup> int" where
  "sample_bonuses = map_of
     [(''metric_present'', 10), (''timeframe_present'', 5), (''baseline_present'', 5),
      (''mechanism_present'', 10), (''scope_present'', 5)]"

definition sample_wt :: "string \<rightharpoonup> (string \<rightharpoonup> int)" where
  "sample_wt = map_of [(''penalties'', sample_penalties), (''bonuses'', sample_bonuses)]"

definition sample_sc :: "(string \<times> class_rule) list" where
  "sample_sc =
     [(''values_non_operational'',
        [(''requires'', [''values_present'']),
         (''forbids'', [''metric_present'', ''mechanism_present''])])]"

definition sample_analyzer :: analyzer where
  "sample_analyzer =
     \<lparr>lex = sample_lex, wt = sample_wt, sc = sample_sc,
      re_number_unit = literal_pattern (ustr_of ''percent''),
      re_timeframe = literal_pattern (ustr_of ''per month''),
      re_baseline = literal_pattern (ustr_of ''compared to''),
      re_scope = literal_pattern (ustr_of ''for all''),
      re_passive = literal_pattern (ustr_of ''done by'')\<rparr>"

section \<open>Notions used to state the properties\<close>

definition occurs_at :: "ustr \<Rightarrow> ustr \<Rightarrow> nat \<Rightarrow> bool" where
  "occurs_at t p i = (i + length p \<le> length t \<and> take (length p) (drop i t) = p)"

fun greedy_occs :: "ustr \<Rightarrow> ustr \<Rightarrow> nat \<Rightarrow> nat list \<Rightarrow> bool" where
  "greedy_occs t p lo [] = (\<forall>j \<in> {lo..length t}. \<not> occurs_at t p j)"
| "greedy_occs t p lo (i # is) =
     (lo \<le> i \<and> occurs_at t p i \<and> (\<forall>j \<in> {lo..<i}. \<not> occurs_at t p j)
      \<and> greedy_occs t p (i + length p) is)"

definition span_at :: "ustr \<Rightarrow> nat \<Rightarrow> nat \<Rightarrow> span" where
  "span_at original n i = \<lparr>span_start = i, span_end = i + n, span_text = slice original i (i + n)\<rparr>"

type_synonym rule = "bool \<times> string \<times> string \<times> span list"

fun run_rules :: "(string \<rightharpoonup> int) \<Rightarrow> rule list \<Rightarrow> int \<times> flag list \<Rightarrow> error + int \<times> flag list" where
  "run_rules P [] st = Inr st"
| "run_rules P ((c, name, lbl, spans) # rs) st =
     ebind (add_penalty P c name lbl spans st) (run_rules P rs)"

definition penalty_rules :: "runtime \<Rightarrow> feature_map \<Rightarrow> span_lists \<Rightarrow> ustr \<Rightarrow> ustr \<Rightarrow> rule list" where
  "penalty_rules rt f sp s s_l =
     [(outcome_present f \<and> \<not> metric_present f,
         ''outcome_without_metric'', ''Outcome claim without metric'', outcome_spans sp),
      (speed_present f \<and> \<not> timeframe_present f,
         ''speed_without_timeframe'', ''Speed claim without timeframe'', speed_spans sp),
      (outcome_present f \<and> \<not> baseline_present f,
         ''outcome_without_baseline'', ''Outcome claim without baseline'', outcome_spans sp),
      (outcome_present f \<and> \<not> scope_present f,
         ''outcome_without_scope'', ''Outcome claim without scope'', outcome_spans sp),
      (proof_implied f,
         ''proof_implied_no_evidence'', ''Proof implied without evidence structure'', proof_spans sp),
      (buzzword_present f \<and> \<not> mechanism_present f,
         ''buzzword_no_mechanism'', ''Buzzword used as mechanism substitute'', buzz_spans sp),
      (outcome_present f \<and> \<not> mechanism_present f,
         ''outcome_without_mechanism'', ''Outcome claim without concrete mechanism'', outcome_spans sp),
      (process_search rt s_l \<and> \<not> mechanism_present f,
         ''process_no_levers'', ''Process language without levers'',
         [\<lparr>span_start = 0, span_end = length s, span_text = s\<rparr>]),
      (passive_present f,
         ''passive_voice'', ''Passive voice / agency evasion'', passive_spans sp),
      (superlative_present f \<and> \<not> metric_present f,
         ''superlative_unbounded'', ''Superlative without constraint'', super_spans sp)]"

definition rule_flag :: "rule \<Rightarrow> flag" where
  "rule_flag r = make_flag (fst (snd r)) (fst (snd (snd r))) (snd (snd (snd r)))"

definition weight_of :: "(string \<rightharpoonup> int) \<Rightarrow> string \<Rightarrow> int" where
  "weight_of W k = (case W k of None \<Rightarrow> 0 | Some w \<Rightarrow> w)"

definition lexicon_keys :: "string list" where
  "lexicon_keys = [''outcome_verbs'', ''speed_words'', ''hedges'', ''superlatives'',
     ''proof_theater'', ''buzzwords'', ''mechanism_tokens'', ''values_language'']"

definition penalty_names :: "string list" where
  "penalty_names = [''outcome_without_metric'', ''speed_without_timeframe'',
     ''outcome_without_baseline'', ''outcome_without_scope'', ''proof_implied_no_evidence'',
     ''buzzword_no_mechanism'', ''outcome_without_mechanism'', ''process_no_levers'',
     ''passive_voice'', ''superlative_unbounded'']"

definition bonus_names :: "string list" where
  "bonus_names = [''metric_present'', ''timeframe_present'', ''baseline_present'',
     ''mechanism_present'', ''scope_present'']"

fun run_bonuses :: "(string \<rightharpoonup> int) \<Rightarrow> (bool \<times> string) list \<Rightarrow> int \<Rightarrow> error + int" where
  "run_bonuses B [] b = Inr b"
| "run_bonuses B ((c, name) # rs) b = ebind (add_bonus B c name b) (run_bonuses B rs)"

definition bonus_rules :: "feature_map \<Rightarrow> (bool \<times> string) list" where
  "bonus_rules f = [(metric_present f, ''metric_present''),
     (timeframe_present f, ''timeframe_present''), (baseline_present f, ''baseline_present''),
     (mechanism_present f, ''mechanism_present''), (scope_present f, ''scope_present'')]"

definition valid_config :: "runtime \<Rightarrow> analyzer \<Rightarrow> bool" where
  "valid_config rt A =
     (list_all (\<lambda>k. case lex A k of None \<Rightarrow> False
                     | Some ps \<Rightarrow> list_all (\<lambda>p. str_lower rt p \<noteq> []) ps) lexicon_keys
      \<and> (case wt A ''penalties'' of None \<Rightarrow> False
          | Some P \<Rightarrow> list_all (\<lambda>k. P k \<noteq> None) penalty_names)
      \<and> (case wt A ''bonuses'' of None \<Rightarrow> False
          | Some B \<Rightarrow> list_all (\<lambda>k. B k \<noteq> None) bonus_names)
      \<and> (case map_of (sc A) ''values_non_operational'' of None \<Rightarrow> True
          | Some rule \<Rightarrow> rule = [] \<or> (map_of rule ''requires'' \<noteq> None \<and> map_of rule ''forbids'' \<noteq> None)))"

section \<open>Further notions, and the configurations and inputs the claims are evaluated on\<close>

text \<open>A \<open>semantic_classes\<close> document with two more classes, the first of which matches.\<close>

definition sc_three_classes :: "(string \<times> class_rule) list" where
  "sc_three_classes =
     [(''hype'', [(''requires'', [''superlative_present'']), (''forbids'', [])]),
      (''values_non_operational'',
        [(''requires'', [''values_present'']),
         (''forbids'', [''metric_present'', ''mechanism_present''])]),
      (''evidence_led'', [(''requires'', [''metric_present'']), (''forbids'', [])])]"

text \<open>The sample configuration with another weight for \<open>outcome_without_metric\<close>.\<close>

definition heavier_analyzer :: "int \<Rightarrow> analyzer" where
  "heavier_analyzer w' = sample_analyzer\<lparr>wt := (wt sample_analyzer)(''penalties'' \<mapsto>
      sample_penalties(''outcome_without_metric'' \<mapsto> w'))\<rparr>"


text \<open>
  The classification the specification describes for several classes: the classes in the
  order of the document, the first whose \<open>requires\<close> features are all true and whose
  \<open>forbids\<close> features are all false, the default when there is none.
\<close>

definition rule_matches :: "class_rule \<Rightarrow> feature_map \<Rightarrow> bool" where
  "rule_matches rule f =
     (case map_of rule ''requires'' of
        None \<Rightarrow> False
      | Some req \<Rightarrow>
          (case map_of rule ''forbids'' of
             None \<Rightarrow> False
           | Some forb \<Rightarrow> list_all (features_get f) req \<and> list_all (\<lambda>k. \<not> features_get f k) forb))"

fun classify_first_match :: "(string \<times> class_rule) list \<Rightarrow> feature_map \<Rightarrow> string" where
  "classify_first_match [] f = ''operational_or_mixed''"
| "classify_first_match ((name, rule) # rest) f =
     (if rule_matches rule f then name else classify_first_match rest f)"

definition no_features :: feature_map where
  "no_features =
     \<lparr>outcome_present = False, speed_present = False, hedge_present = False,
      superlative_present = False, proof_implied = False, buzzword_present = False,
      mechanism_present = False, values_present = False, metric_present = False,
      timeframe_present = False, baseline_present = False, scope_present = False,
      passive_present = False\<rparr>"


definition superlative_only :: feature_map where
  "superlative_only = no_features\<lparr>superlative_present := True\<rparr>"

definition values_only :: feature_map where
  "values_only = no_features\<lparr>values_present := True\<rparr>"

definition fog_analyzer :: analyzer where
  "fog_analyzer = sample_analyzer\<lparr>wt := (wt sample_analyzer)(''penalties'' \<mapsto>
      sample_penalties(''passive_voice'' \<mapsto> 25, ''proof_implied_no_evidence'' \<mapsto> 1))\<rparr>"

definition fog_text :: ustr where
  "fog_text = concat (replicate 20 (ustr_of ''Done by. '')) @ ustr_of ''Proven, done by.''"

text \<open>
  The sentence made of U+0130 (capital I with dot above) and \<open> grew\<close>: six code
  points, the first of which lowercases to two.
\<close>

definition dotted_sentence :: ustr where
  "dotted_sentence = 304 # ustr_of '' grew''"

text \<open>
  The sample configuration with an empty string among the hedges.
\<close>

definition empty_phrase_analyzer :: analyzer where
  "empty_phrase_analyzer = sample_analyzer\<lparr>lex := sample_lex(''hedges'' \<mapsto> [ustr_of ''may'', []])\<rparr>"

text \<open>
  The invariant of a span over the sentence \<open>s\<close>.
\<close>

definition span_ok :: "ustr \<Rightarrow> span \<Rightarrow> bool" where
  "span_ok s sp = (span_start sp \<le> span_end sp \<and> span_end sp \<le> length s
                   \<and> span_text sp = slice s (span_start sp) (span_end sp))"

section \<open>Lemmas on matching and on the rule chain\<close>

lemma take_eq_length_le:
  assumes "take (length p) xs = p"
  shows "length p \<le> length xs"
proof -
  have "length (take (length p) xs) = length p" by (simp only: assms)
  then show ?thesis by (simp add: min_def split: if_splits)
qed

lemma occurs_at_0_Cons:
  "occurs_at (c # cs) p 0 = (take (length p) (c # cs) = p)"
  using take_eq_length_le[of p "c # cs"] by (auto simp: occurs_at_def)

lemma occurs_at_Suc_Cons: "occurs_at (c # cs) p (Suc j) = occurs_at cs p j"
  by (simp add: occurs_at_def)

lemma occurs_at_Nil: "occurs_at [] p j = (p = [] \<and> j = 0)"
  by (auto simp: occurs_at_def)

lemma find_sub_Some:
  "find_sub p t = Some i \<Longrightarrow> occurs_at t p i \<and> (\<forall>j<i. \<not> occurs_at t p j)"
proof (induction t arbitrary: i)
  case Nil
  then show ?case by (simp add: occurs_at_Nil split: if_splits)
next
  case (Cons c cs)
  show ?case
  proof (cases "take (length p) (c # cs) = p")
    case True
    with Cons.prems show ?thesis by (simp add: occurs_at_0_Cons)
  next
    case False
    with Cons.prems obtain k where k: "find_sub p cs = Some k" "i = Suc k" by auto
    from Cons.IH[OF k(1)] have ih: "occurs_at cs p k" "\<forall>j<k. \<not> occurs_at cs p j" by auto
    have "\<not> occurs_at (c # cs) p j" if "j < i" for j
    proof (cases j)
      case 0
      then show ?thesis using False by (simp add: occurs_at_0_Cons)
    next
      case (Suc m)
      then show ?thesis using that k(2) ih(2) by (simp add: occurs_at_Suc_Cons)
    qed
    then show ?thesis using ih(1) k(2) by (simp add: occurs_at_Suc_Cons)
  qed
qed

lemma find_sub_None: "find_sub p t = None \<Longrightarrow> \<not> occurs_at t p j"
proof (induction t arbitrary: j)
  case Nil
  then show ?case by (simp add: occurs_at_Nil split: if_splits)
next
  case (Cons c cs)
  then show ?case
    by (cases j) (auto simp: occurs_at_0_Cons occurs_at_Suc_Cons split: if_splits)
qed

lemma occurs_at_drop: "start \<le> length t \<Longrightarrow> occurs_at (drop start t) p i = occurs_at t p (start + i)"
  by (auto simp: occurs_at_def add.commute)

lemma str_find_Some:
  assumes "str_find t p start = Some i"
  shows "start \<le> i \<and> occurs_at t p i \<and> (\<forall>j. start \<le> j \<and> j < i \<longrightarrow> \<not> occurs_at t p j)"
proof -
  from assms have le: "start \<le> length t" by (simp add: str_find_def split: if_splits)
  from assms le obtain k where k: "find_sub p (drop start t) = Some k" "i = start + k"
    by (auto simp: str_find_def)
  from find_sub_Some[OF k(1)] have a: "occurs_at (drop start t) p k"
    and b: "\<forall>j<k. \<not> occurs_at (drop start t) p j" by auto
  have "\<not> occurs_at t p j" if "start \<le> j" "j < i" for j
  proof -
    from that k(2) have "j - start < k" by simp
    with b have "\<not> occurs_at (drop start t) p (j - start)" by simp
    then show ?thesis using that le by (simp add: occurs_at_drop)
  qed
  then show ?thesis using a k(2) le by (simp add: occurs_at_drop)
qed

lemma str_find_None:
  assumes "str_find t p start = None" and "start \<le> j"
  shows "\<not> occurs_at t p j"
proof (cases "start \<le> length t")
  case True
  with assms(1) have "find_sub p (drop start t) = None" by (simp add: str_find_def)
  from find_sub_None[OF this, of "j - start"] show ?thesis
    using True assms(2) by (simp add: occurs_at_drop)
next
  case False
  then show ?thesis using assms(2) by (simp add: occurs_at_def)
qed

lemma str_find_empty: "start \<le> length t \<Longrightarrow> str_find t [] start = Some start"
  by (cases "drop start t") (simp_all add: str_find_def)

lemma phrase_loop_returns:
  assumes "p \<noteq> []"
  shows "\<exists>is. phrase_loop t p original start spans = Some (spans @ map (span_at original (length p)) is)
           \<and> greedy_occs t p start is"
proof (induction "Suc (length t) - start" arbitrary: start spans rule: less_induct)
  case less
  show ?case
  proof (cases "str_find t p start")
    case None
    then have "phrase_loop t p original start spans = Some spans"
      by (subst phrase_loop.simps) simp
    moreover have "greedy_occs t p start []"
      using str_find_None[OF None] by simp
    ultimately show ?thesis by (intro exI[of _ "[]"]) simp
  next
    case (Some idx)
    from str_find_Some[OF Some] have f: "start \<le> idx" "occurs_at t p idx"
      "\<forall>j. start \<le> j \<and> j < idx \<longrightarrow> \<not> occurs_at t p j" by auto
    from f(2) have b: "idx + length p \<le> length t" by (simp add: occurs_at_def)
    from assms have "0 < length p" by simp
    with f(1) b have "Suc (length t) - (idx + length p) < Suc (length t) - start" by arith
    from less[OF this, of "spans @ [span_at original (length p) idx]"]
    obtain js where js:
      "phrase_loop t p original (idx + length p) (spans @ [span_at original (length p) idx])
         = Some ((spans @ [span_at original (length p) idx]) @ map (span_at original (length p)) js)"
      "greedy_occs t p (idx + length p) js" by blast
    have "phrase_loop t p original start spans
            = phrase_loop t p original (idx + length p) (spans @ [span_at original (length p) idx])"
      by (subst phrase_loop.simps) (simp add: Some span_at_def)
    with js f show ?thesis by (intro exI[of _ "idx # js"]) simp
  qed
qed

lemma phrase_loop_empty_phrase:
  assumes "start \<le> length t"
  shows "phrase_loop t [] original start spans = None"
proof (cases "phrase_loop t [] original start spans")
  case None
  then show ?thesis .
next
  case (Some y)
  have step: "p \<noteq> [] \<or> length t < start"
    if ih: "\<And>t p original start spans y.
              f t p original start spans = Some y \<Longrightarrow> p \<noteq> [] \<or> length t < start"
      and eq: "(case str_find t p start of None \<Rightarrow> Some spans
                | Some idx \<Rightarrow> f t p original (idx + length p)
                    (spans @ [\<lparr>span_start = idx, span_end = idx + length p,
                               span_text = slice original idx (idx + length p)\<rparr>])) = Some y"
    for f :: "ustr \<Rightarrow> ustr \<Rightarrow> ustr \<Rightarrow> nat \<Rightarrow> span list \<Rightarrow> span list option"
      and t p original start spans y
  proof (rule ccontr)
    assume "\<not> (p \<noteq> [] \<or> length t < start)"
    then have a: "p = []" "start \<le> length t" by auto
    then have "str_find t p start = Some start" by (simp add: str_find_empty)
    with eq a have "f t [] original start (spans @ [\<lparr>span_start = start, span_end = start,
                       span_text = slice original start start\<rparr>]) = Some y" by simp
    from ih[OF this] a show False by simp
  qed
  have "[] \<noteq> ([] :: ustr) \<or> length t < start"
    by (rule phrase_loop.raw_induct[where P = "\<lambda>t p original start spans y. p \<noteq> [] \<or> length t < start",
          OF step Some])
  with assms show ?thesis by simp
qed

lemma ebind_simps [simp]: "ebind (Inl e) f = Inl e" "ebind (Inr x) f = f x"
  by (simp_all add: ebind_def)

lemma ebind_eq_Inr: "ebind m f = Inr y \<longleftrightarrow> (\<exists>x. m = Inr x \<and> f x = Inr y)"
  by (cases m) simp_all

lemma bindr_simps [simp]:
  "bindr None f = None" "bindr (Some (Inl e)) f = Some (Inl e)" "bindr (Some (Inr x)) f = f x"
  by (simp_all add: bindr_def)

lemma bindr_eq_Inr: "bindr m f = Some (Inr y) \<longleftrightarrow> (\<exists>x. m = Some (Inr x) \<and> f x = Some (Inr y))"
  by (cases m) (auto simp: bindr_def split: sum.splits)

lemma dict_get_eq_Inr: "dict_get d k = Inr v \<longleftrightarrow> d k = Some v"
  by (simp add: dict_get_def split: option.splits)

lemma run_rules_Cons_fun:
  "run_rules P ((c, name, lbl, spans) # rs)
     = (\<lambda>st. ebind (add_penalty P c name lbl spans st) (run_rules P rs))"
  by (rule ext) simp

lemma run_rules_Nil_fun: "run_rules P [] = Inr"
  by (rule ext) simp

lemma ebind_Inr_right: "ebind m Inr = m"
  by (cases m) simp_all

lemma penalties_of_run_rules:
  "penalties_of rt P f sp s s_l = run_rules P (penalty_rules rt f sp s s_l) (0, [])"
  by (simp add: penalties_of_def penalty_rules_def run_rules_Cons_fun run_rules_Nil_fun
        ebind_Inr_right)

lemma run_rules_Inr:
  "run_rules P rs st = Inr st' \<Longrightarrow>
     snd st' = snd st @ map rule_flag (filter fst rs)
     \<and> fst st' = fst st + sum_list (map (\<lambda>r. weight_of P (fst (snd r))) (filter fst rs))
     \<and> (\<forall>r \<in> set (filter fst rs). P (fst (snd r)) \<noteq> None)"
proof (induction rs arbitrary: st)
  case Nil
  then show ?case by simp
next
  case (Cons r rs)
  obtain c name lbl spans where r: "r = (c, name, lbl, spans)" by (cases r) auto
  from Cons.prems r obtain st1 where s1: "add_penalty P c name lbl spans st = Inr st1"
    and s2: "run_rules P rs st1 = Inr st'" by (auto simp: ebind_eq_Inr)
  note ih = Cons.IH[OF s2]
  show ?case
  proof (cases c)
    case True
    with s1 obtain w where w: "P name = Some w" "st1 = (fst st + w, snd st @ [make_flag name lbl spans])"
      by (auto simp: add_penalty_def ebind_eq_Inr dict_get_eq_Inr)
    with ih True r show ?thesis by (simp add: rule_flag_def weight_of_def)
  next
    case False
    with s1 have "st1 = st" by (simp add: add_penalty_def)
    with ih False r show ?thesis by simp
  qed
qed

lemma run_rules_total:
  "\<forall>r \<in> set (filter fst rs). P (fst (snd r)) \<noteq> None \<Longrightarrow> \<exists>st'. run_rules P rs st = Inr st'"
proof (induction rs arbitrary: st)
  case Nil
  then show ?case by simp
next
  case (Cons r rs)
  obtain c name lbl spans where r: "r = (c, name, lbl, spans)" by (cases r) auto
  have "\<exists>st1. add_penalty P c name lbl spans st = Inr st1"
  proof (cases c)
    case True
    with Cons.prems r obtain w where "P name = Some w" by auto
    with True show ?thesis by (simp add: add_penalty_def dict_get_def)
  next
    case False
    then show ?thesis by (simp add: add_penalty_def)
  qed
  then obtain st1 where s1: "add_penalty P c name lbl spans st = Inr st1" ..
  from Cons.IH[of st1] Cons.prems obtain st' where "run_rules P rs st1 = Inr st'" by auto
  with s1 r show ?case by auto
qed

lemma sum_weights_update:
  assumes "P k = Some w"
  shows "sum_list (map (\<lambda>r. weight_of (P(k \<mapsto> w')) (fst (snd r))) rs)
           = sum_list (map (\<lambda>r. weight_of P (fst (snd r))) rs)
             + (w' - w) * int (length (filter (\<lambda>r. fst (snd r) = k) rs))"
  using assms by (induction rs) (auto simp: weight_of_def algebra_simps)

lemma run_rules_update:
  assumes run: "run_rules P rs st = Inr st'" and k: "P k = Some w"
  shows "run_rules (P(k \<mapsto> w')) rs st
           = Inr (fst st' + (w' - w) * int (length (filter (\<lambda>r. fst (snd r) = k) (filter fst rs))),
                  snd st')"
proof -
  note a = run_rules_Inr[OF run]
  from a have "\<forall>r \<in> set (filter fst rs). (P(k \<mapsto> w')) (fst (snd r)) \<noteq> None" by auto
  from run_rules_total[OF this, of st] obtain st2 where
    st2: "run_rules (P(k \<mapsto> w')) rs st = Inr st2" ..
  note b = run_rules_Inr[OF st2]
  have "fst st2 = fst st' + (w' - w) * int (length (filter (\<lambda>r. fst (snd r) = k) (filter fst rs)))"
    using a b sum_weights_update[of P k w w' "filter fst rs"] k by simp
  moreover have "snd st2 = snd st'" using a b by simp
  ultimately show ?thesis using st2 by (simp add: prod_eq_iff)
qed

lemma phrases_loop_returns:
  assumes "\<forall>p \<in> set ps. str_lower rt p \<noteq> []"
  shows "\<exists>iss. list_all2 (\<lambda>p is. greedy_occs t (str_lower rt p) 0 is) ps iss
           \<and> phrases_loop rt t ps original spans
               = Some (spans @ concat (map2 (\<lambda>p is. map (span_at original (length (str_lower rt p))) is) ps iss))"
  using assms
proof (induction ps arbitrary: spans)
  case Nil
  then show ?case by simp
next
  case (Cons p ps)
  from Cons.prems have ne: "str_lower rt p \<noteq> []" by simp
  from phrase_loop_returns[OF ne, of t original 0 spans] obtain js where
    js: "phrase_loop t (str_lower rt p) original 0 spans
           = Some (spans @ map (span_at original (length (str_lower rt p))) js)"
        "greedy_occs t (str_lower rt p) 0 js" by blast
  from Cons.IH[of "spans @ map (span_at original (length (str_lower rt p))) js"] Cons.prems
  obtain iss where iss: "list_all2 (\<lambda>p is. greedy_occs t (str_lower rt p) 0 is) ps iss"
    "phrases_loop rt t ps original (spans @ map (span_at original (length (str_lower rt p))) js)
       = Some ((spans @ map (span_at original (length (str_lower rt p))) js)
               @ concat (map2 (\<lambda>p is. map (span_at original (length (str_lower rt p))) is) ps iss))"
    by auto
  show ?case
    by (rule exI[of _ "js # iss"]) (simp add: js iss)
qed

lemma phrases_loop_empty_phrase:
  "\<exists>p \<in> set ps. str_lower rt p = [] \<Longrightarrow> phrases_loop rt t ps original spans = None"
proof (induction ps arbitrary: spans)
  case Nil
  then show ?case by simp
next
  case (Cons p ps)
  show ?case
  proof (cases "str_lower rt p = []")
    case True
    then show ?thesis by (simp add: phrase_loop_empty_phrase)
  next
    case False
    with Cons.prems have "\<exists>p \<in> set ps. str_lower rt p = []" by auto
    with Cons.IH show ?thesis by (simp split: option.splits)
  qed
qed

lemma find_phrase_spans_returns:
  "\<forall>p \<in> set ps. str_lower rt p \<noteq> [] \<Longrightarrow> \<exists>spans. find_phrase_spans rt t ps original = Some spans"
  using phrases_loop_returns[of ps rt t original "[]"] by (auto simp: find_phrase_spans_def)

lemma lex_spans_returns:
  assumes "lx k = Some ps" and "list_all (\<lambda>p. str_lower rt p \<noteq> []) ps"
  shows "\<exists>spans. lex_spans rt lx k s_l s = Some (Inr spans)"
proof -
  from assms(2) have "\<forall>p \<in> set ps. str_lower rt p \<noteq> []" by (simp add: list_all_iff)
  from find_phrase_spans_returns[OF this, of s_l s] assms(1) show ?thesis
    by (auto simp: lex_spans_def)
qed

lemma valid_config_lex:
  assumes "valid_config rt A" and "k \<in> set lexicon_keys"
  shows "\<exists>spans. lex_spans rt (lex A) k s_l s = Some (Inr spans)"
proof -
  from assms have "case lex A k of None \<Rightarrow> False
                   | Some ps \<Rightarrow> list_all (\<lambda>p. str_lower rt p \<noteq> []) ps"
    by (simp add: valid_config_def list_all_iff)
  then obtain ps where "lex A k = Some ps" "list_all (\<lambda>p. str_lower rt p \<noteq> []) ps"
    by (auto split: option.splits)
  then show ?thesis by (rule lex_spans_returns)
qed

lemma collect_spans_returns:
  assumes "valid_config rt A"
  shows "\<exists>sp. collect_spans rt A s = Some (Inr sp)"
proof -
  note v = valid_config_lex[OF assms, of _ "str_lower rt s" s]
  obtain s1 where s1: "lex_spans rt (lex A) ''outcome_verbs'' (str_lower rt s) s = Some (Inr s1)"
    using v[of "''outcome_verbs''"] by (auto simp: lexicon_keys_def)
  obtain s2 where s2: "lex_spans rt (lex A) ''speed_words'' (str_lower rt s) s = Some (Inr s2)"
    using v[of "''speed_words''"] by (auto simp: lexicon_keys_def)
  obtain s3 where s3: "lex_spans rt (lex A) ''hedges'' (str_lower rt s) s = Some (Inr s3)"
    using v[of "''hedges''"] by (auto simp: lexicon_keys_def)
  obtain s4 where s4: "lex_spans rt (lex A) ''superlatives'' (str_lower rt s) s = Some (Inr s4)"
    using v[of "''superlatives''"] by (auto simp: lexicon_keys_def)
  obtain s5 where s5: "lex_spans rt (lex A) ''proof_theater'' (str_lower rt s) s = Some (Inr s5)"
    using v[of "''proof_theater''"] by (auto simp: lexicon_keys_def)
  obtain s6 where s6: "lex_spans rt (lex A) ''buzzwords'' (str_lower rt s) s = Some (Inr s6)"
    using v[of "''buzzwords''"] by (auto simp: lexicon_keys_def)
  obtain s7 where s7: "lex_spans rt (lex A) ''mechanism_tokens'' (str_lower rt s) s = Some (Inr s7)"
    using v[of "''mechanism_tokens''"] by (auto simp: lexicon_keys_def)
  obtain s8 where s8: "lex_spans rt (lex A) ''values_language'' (str_lower rt s) s = Some (Inr s8)"
    using v[of "''values_language''"] by (auto simp: lexicon_keys_def)
  show ?thesis
    by (simp add: collect_spans_def Let_def s1 s2 s3 s4 s5 s6 s7 s8)
qed

lemma semantic_class_of_returns:
  assumes "valid_config rt A"
  shows "\<exists>cls. semantic_class_of (sc A) f = Inr cls"
proof (cases "map_of (sc A) ''values_non_operational''")
  case None
  then show ?thesis by (simp add: semantic_class_of_def)
next
  case (Some rule)
  show ?thesis
  proof (cases "rule = []")
    case True
    with Some show ?thesis by (simp add: semantic_class_of_def)
  next
    case False
    with assms Some obtain req forb where
      "map_of rule ''requires'' = Some req" "map_of rule ''forbids'' = Some forb"
      by (auto simp: valid_config_def)
    with Some False show ?thesis by (simp add: semantic_class_of_def dict_get_def)
  qed
qed

lemma semantic_class_of_range:
  "semantic_class_of c f = Inr cls \<Longrightarrow>
     cls = ''operational_or_mixed'' \<or> cls = ''values_non_operational''"
  by (auto simp: semantic_class_of_def ebind_eq_Inr split: option.splits if_splits)

lemma penalty_rule_names:
  "map (\<lambda>r. fst (snd r)) (penalty_rules rt f sp s s_l) = penalty_names"
  by (simp add: penalty_rules_def penalty_names_def)

lemma penalties_of_returns:
  assumes "list_all (\<lambda>k. P k \<noteq> None) penalty_names"
  shows "\<exists>st. penalties_of rt P f sp s s_l = Inr st"
proof -
  from assms have "\<forall>k \<in> set (map (\<lambda>r. fst (snd r)) (penalty_rules rt f sp s s_l)). P k \<noteq> None"
    by (simp only: penalty_rule_names list_all_iff)
  then have "\<forall>r \<in> set (filter fst (penalty_rules rt f sp s s_l)). P (fst (snd r)) \<noteq> None"
    by auto
  from run_rules_total[OF this] show ?thesis by (simp add: penalties_of_run_rules)
qed

lemma run_bonuses_Cons_fun:
  "run_bonuses B ((c, name) # rs) = (\<lambda>b. ebind (add_bonus B c name b) (run_bonuses B rs))"
  by (rule ext) simp

lemma run_bonuses_Nil_fun: "run_bonuses B [] = Inr"
  by (rule ext) simp

lemma bonus_of_run_bonuses: "bonus_of B f = run_bonuses B (bonus_rules f) 0"
  by (simp add: bonus_of_def bonus_rules_def run_bonuses_Cons_fun run_bonuses_Nil_fun
        ebind_Inr_right)

lemma run_bonuses_Inr:
  "run_bonuses B rs b = Inr b' \<Longrightarrow>
     b' = b + sum_list (map (weight_of B) (map snd (filter fst rs)))
     \<and> (\<forall>k \<in> set (map snd (filter fst rs)). B k \<noteq> None)"
proof (induction rs arbitrary: b)
  case Nil
  then show ?case by simp
next
  case (Cons r rs)
  obtain c name where r: "r = (c, name)" by (cases r) auto
  from Cons.prems r obtain b1 where s1: "add_bonus B c name b = Inr b1"
    and s2: "run_bonuses B rs b1 = Inr b'" by (auto simp: ebind_eq_Inr)
  note ih = Cons.IH[OF s2]
  show ?case
  proof (cases c)
    case True
    with s1 obtain w where "B name = Some w" "b1 = b + w"
      by (auto simp: add_bonus_def ebind_eq_Inr dict_get_eq_Inr)
    with ih True r show ?thesis by (simp add: weight_of_def)
  next
    case False
    with s1 have "b1 = b" by (simp add: add_bonus_def)
    with ih False r show ?thesis by simp
  qed
qed

lemma run_bonuses_total:
  "\<forall>k \<in> set (map snd rs). B k \<noteq> None \<Longrightarrow> \<exists>b'. run_bonuses B rs b = Inr b'"
proof (induction rs arbitrary: b)
  case Nil
  then show ?case by simp
next
  case (Cons r rs)
  obtain c name where r: "r = (c, name)" by (cases r) auto
  from Cons.prems r obtain w where "B name = Some w" by auto
  then obtain b1 where s1: "add_bonus B c name b = Inr b1"
    by (cases c) (simp_all add: add_bonus_def dict_get_def)
  from Cons.IH[of b1] Cons.prems obtain b' where "run_bonuses B rs b1 = Inr b'" by auto
  with s1 r show ?case by auto
qed

lemma bonus_of_returns:
  assumes "list_all (\<lambda>k. B k \<noteq> None) bonus_names"
  shows "\<exists>b. bonus_of B f = Inr b"
proof -
  have "map snd (bonus_rules f) = bonus_names" by (simp add: bonus_rules_def bonus_names_def)
  with assms have "\<forall>k \<in> set (map snd (bonus_rules f)). B k \<noteq> None"
    by (simp only: list_all_iff)
  from run_bonuses_total[OF this] show ?thesis by (simp add: bonus_of_run_bonuses)
qed

lemma analyze_sentence_Inr:
  assumes "analyze_sentence rt A s = Some (Inr a)"
  obtains sp cls P B st bon where
    "collect_spans rt A s = Some (Inr sp)"
    "semantic_class_of (sc A) (features_of sp) = Inr cls"
    "wt A ''penalties'' = Some P" "wt A ''bonuses'' = Some B"
    "penalties_of rt P (features_of sp) sp s (str_lower rt s) = Inr st"
    "bonus_of B (features_of sp) = Inr bon"
    "a = \<lparr>sentence = s, semantic_class = cls, features = features_of sp, flags = snd st,
          score_breakdown = \<lparr>penalties = fst st, bonus = bon\<rparr>,
          total_score = max 0 (min 100 (fst st - bon))\<rparr>"
  using assms
  by (auto simp: analyze_sentence_def bindr_eq_Inr ebind_eq_Inr dict_get_eq_Inr Let_def)

lemma analyze_sentence_returns:
  assumes "valid_config rt A"
  shows "\<exists>a. analyze_sentence rt A s = Some (Inr a)"
proof -
  from collect_spans_returns[OF assms] obtain sp where sp: "collect_spans rt A s = Some (Inr sp)" ..
  from semantic_class_of_returns[OF assms] obtain cls where
    cls: "semantic_class_of (sc A) (features_of sp) = Inr cls" ..
  from assms obtain P B where P: "wt A ''penalties'' = Some P" "list_all (\<lambda>k. P k \<noteq> None) penalty_names"
    and B: "wt A ''bonuses'' = Some B" "list_all (\<lambda>k. B k \<noteq> None) bonus_names"
    by (auto simp: valid_config_def split: option.splits)
  from penalties_of_returns[OF P(2)] obtain st where
    st: "penalties_of rt P (features_of sp) sp s (str_lower rt s) = Inr st" ..
  from bonus_of_returns[OF B(2)] obtain bon where bon: "bonus_of B (features_of sp) = Inr bon" ..
  show ?thesis
    by (simp add: analyze_sentence_def sp cls P(1) B(1) st bon dict_get_def Let_def)
qed

section \<open>The claims\<close>

subsection \<open>The total score\<close>

text \<open>
  Claim C1. Every analysis that \<open>analyze_sentence\<close> returns has a total score between 0
  and 100, equal to \<open>penalties - bonus\<close> of its score breakdown clamped to that range; and
  on a valid configuration (every required key present, no phrase that lowercases to the
  empty string) \<open>analyze_sentence\<close> does return an analysis, for every sentence.
\<close>

theorem total_score_clamped:
  "(\<forall>a. analyze_sentence rt A s = Some (Inr a) \<longrightarrow>
       0 \<le> total_score a \<and> total_score a \<le> 100
       \<and> total_score a = max 0 (min 100 (penalties (score_breakdown a) - bonus (score_breakdown a))))
   \<and> (valid_config rt A \<longrightarrow> (\<exists>a. analyze_sentence rt A s = Some (Inr a)))"
proof (intro conjI allI impI)
  fix a assume h: "analyze_sentence rt A s = Some (Inr a)"
  from h have t: "total_score a
      = max 0 (min 100 (penalties (score_breakdown a) - bonus (score_breakdown a)))"
    by (rule analyze_sentence_Inr) simp
  then show "0 \<le> total_score a" "total_score a \<le> 100" by simp_all
  from t show "total_score a
      = max 0 (min 100 (penalties (score_breakdown a) - bonus (score_breakdown a)))" .
next
  assume "valid_config rt A"
  then show "\<exists>a. analyze_sentence rt A s = Some (Inr a)" by (rule analyze_sentence_returns)
qed

text \<open>
  The sentence below triggers nine of the ten rules of the sample configuration: its
  penalties add up to 120 and the total is clamped to 100.
\<close>

theorem total_score_clamped_witness:
  "valid_config sample_rt sample_analyzer
   \<and> (\<exists>a. analyze_sentence sample_rt sample_analyzer
             (ustr_of ''Grew fast, best proven synergy strategy'') = Some (Inr a)
          \<and> penalties (score_breakdown a) = 120 \<and> bonus (score_breakdown a) = 0
          \<and> total_score a = 100)"
proof -
  let ?r = "analyze_sentence sample_rt sample_analyzer
              (ustr_of ''Grew fast, best proven synergy strategy'')"
  have v: "valid_config sample_rt sample_analyzer" by code_simp
  have e: "case ?r of
             Some (Inr a) \<Rightarrow> penalties (score_breakdown a) = 120 \<and> bonus (score_breakdown a) = 0
           | _ \<Rightarrow> False" by code_simp
  obtain a where a1: "?r = Some (Inr a)"
  proof (cases ?r)
    case None
    with e show ?thesis by simp
  next
    case (Some x)
    with e that show ?thesis by (cases x) simp_all
  qed
  from e have a2: "penalties (score_breakdown a) = 120" and a3: "bonus (score_breakdown a) = 0"
    by (simp_all only: a1 option.case sum.case)
  note t = total_score_clamped[of sample_rt sample_analyzer
      "ustr_of ''Grew fast, best proven synergy strategy''", THEN conjunct1, rule_format, OF a1]
  from t
  have "total_score a = max 0 (min 100 (penalties (score_breakdown a) - bonus (score_breakdown a)))"
    by (elim conjE)
  then have a4: "total_score a = 100" by (simp add: a2 a3)
  show ?thesis by (intro conjI exI[of _ a]) (fact v a1 a2 a3 a4)+
qed

subsection \<open>The semantic class takes two values\<close>

text \<open>
  Claim C10. Whatever the \<open>semantic_classes\<close> document contains, the semantic class of a
  returned analysis is one of the two strings \<open>operational_or_mixed\<close> and
  \<open>values_non_operational\<close>.
\<close>

theorem semantic_class_two_values:
  "analyze_sentence rt A s = Some (Inr a) \<Longrightarrow>
     semantic_class a = ''operational_or_mixed'' \<or> semantic_class a = ''values_non_operational''"
proof -
  assume "analyze_sentence rt A s = Some (Inr a)"
  then obtain cls f where "semantic_class_of (sc A) f = Inr cls" "semantic_class a = cls"
    by (elim analyze_sentence_Inr) simp
  then show ?thesis using semantic_class_of_range by blast
qed

theorem semantic_class_two_values_witness:
  "\<exists>a. analyze_sentence sample_rt (sample_analyzer\<lparr>sc := sc_three_classes\<rparr>)
          (ustr_of ''The best service'') = Some (Inr a)
       \<and> (semantic_class a = ''operational_or_mixed'' \<or> semantic_class a = ''values_non_operational'')
       \<and> superlative_present (features a)"
proof -
  let ?r = "analyze_sentence sample_rt (sample_analyzer\<lparr>sc := sc_three_classes\<rparr>)
              (ustr_of ''The best service'')"
  have e: "case ?r of Some (Inr a) \<Rightarrow> superlative_present (features a) | _ \<Rightarrow> False"
    by code_simp
  obtain a where a1: "?r = Some (Inr a)"
  proof (cases ?r)
    case None
    with e show ?thesis by simp
  next
    case (Some x)
    with e that show ?thesis by (cases x) simp_all
  qed
  from e have a2: "superlative_present (features a)"
    by (simp only: a1 option.case sum.case)
  note a3 = semantic_class_two_values[OF a1]
  show ?thesis by (intro exI[of _ a] conjI) (fact a1 a2 a3)+
qed

subsection \<open>The score breakdown\<close>

lemma penalty_names_distinct: "distinct penalty_names"
  by (simp add: penalty_names_def)

lemma features_get_bonus_names:
  "features_get f ''metric_present'' = metric_present f"
  "features_get f ''timeframe_present'' = timeframe_present f"
  "features_get f ''baseline_present'' = baseline_present f"
  "features_get f ''mechanism_present'' = mechanism_present f"
  "features_get f ''scope_present'' = scope_present f"
  by (simp_all add: features_get_def)

lemma bonus_rules_names:
  "map snd (filter fst (bonus_rules f)) = filter (features_get f) bonus_names"
  by (simp add: bonus_rules_def bonus_names_def features_get_bonus_names)

lemma map_filter_names:
  "map (\<lambda>r. fst (snd r)) (filter fst rs) = map flag_type (map rule_flag (filter fst rs))"
  by (simp add: rule_flag_def make_flag_def)

lemma distinct_map_filter: "distinct (map g xs) \<Longrightarrow> distinct (map g (filter P xs))"
  by (induction xs) auto

text \<open>
  Claim C9. In a returned analysis the flag types are distinct names among the ten penalty
  rules, every one of them has a configured weight, and \<open>penalties\<close> is the sum of these
  weights; \<open>bonus\<close> is the sum of the configured weights of those of the five bonus
  features that are true in the feature map.
\<close>

theorem breakdown_sums:
  assumes "analyze_sentence rt A s = Some (Inr a)"
  shows "\<exists>P B. wt A ''penalties'' = Some P \<and> wt A ''bonuses'' = Some B
           \<and> distinct (map flag_type (flags a))
           \<and> set (map flag_type (flags a)) \<subseteq> set penalty_names
           \<and> (\<forall>k \<in> set (map flag_type (flags a)). P k \<noteq> None)
           \<and> penalties (score_breakdown a) = sum_list (map (weight_of P) (map flag_type (flags a)))
           \<and> (\<forall>k \<in> set (filter (features_get (features a)) bonus_names). B k \<noteq> None)
           \<and> bonus (score_breakdown a)
               = sum_list (map (weight_of B) (filter (features_get (features a)) bonus_names))"
proof -
  from assms obtain sp cls P B st bon where
    P: "wt A ''penalties'' = Some P" and B: "wt A ''bonuses'' = Some B"
    and st: "penalties_of rt P (features_of sp) sp s (str_lower rt s) = Inr st"
    and bon: "bonus_of B (features_of sp) = Inr bon"
    and a: "a = \<lparr>sentence = s, semantic_class = cls, features = features_of sp, flags = snd st,
          score_breakdown = \<lparr>penalties = fst st, bonus = bon\<rparr>,
          total_score = max 0 (min 100 (fst st - bon))\<rparr>"
    by (rule analyze_sentence_Inr)
  let ?rs = "penalty_rules rt (features_of sp) sp s (str_lower rt s)"
  from st have "run_rules P ?rs (0, []) = Inr st" by (simp add: penalties_of_run_rules)
  note r = run_rules_Inr[OF this]
  have names: "map flag_type (snd st) = map (\<lambda>r. fst (snd r)) (filter fst ?rs)"
    using r by (simp add: map_filter_names)
  have d: "distinct (map flag_type (snd st))"
    unfolding names using penalty_names_distinct
    by (intro distinct_map_filter) (simp only: penalty_rule_names)
  have sub: "set (map flag_type (snd st)) \<subseteq> set penalty_names"
  proof -
    have "set (map (\<lambda>r. fst (snd r)) (filter fst ?rs)) \<subseteq> set (map (\<lambda>r. fst (snd r)) ?rs)" by auto
    then show ?thesis unfolding names by (simp only: penalty_rule_names)
  qed
  have pk: "\<forall>k \<in> set (map flag_type (snd st)). P k \<noteq> None"
    unfolding names using r by auto
  have ps: "fst st = sum_list (map (weight_of P) (map flag_type (snd st)))"
    unfolding names using r by (simp add: comp_def)
  from bon have "run_bonuses B (bonus_rules (features_of sp)) 0 = Inr bon"
    by (simp add: bonus_of_run_bonuses)
  note b = run_bonuses_Inr[OF this]
  have bk: "\<forall>k \<in> set (filter (features_get (features_of sp)) bonus_names). B k \<noteq> None"
    using b unfolding bonus_rules_names by simp
  have bs: "bon = sum_list (map (weight_of B) (filter (features_get (features_of sp)) bonus_names))"
    using b unfolding bonus_rules_names by simp
  show ?thesis
    using P B d sub pk ps bk bs by (simp add: a)
qed

theorem breakdown_sums_witness:
  "\<exists>a. analyze_sentence sample_rt sample_analyzer
          (ustr_of ''Grew 3 percent per month, proven'') = Some (Inr a)
       \<and> map flag_type (flags a)
           = [''outcome_without_baseline'', ''outcome_without_scope'', ''proof_implied_no_evidence'',
              ''outcome_without_mechanism'']
       \<and> filter (features_get (features a)) bonus_names = [''metric_present'', ''timeframe_present'']
       \<and> penalties (score_breakdown a) = 10 + 10 + 15 + 15
       \<and> bonus (score_breakdown a) = 10 + 5"
proof -
  let ?r = "analyze_sentence sample_rt sample_analyzer
             (ustr_of ''Grew 3 percent per month, proven'')"
  have e: "case ?r of
             Some (Inr a) \<Rightarrow> map flag_type (flags a)
               = [''outcome_without_baseline'', ''outcome_without_scope'',
                  ''proof_implied_no_evidence'', ''outcome_without_mechanism'']
               \<and> filter (features_get (features a)) bonus_names
                   = [''metric_present'', ''timeframe_present'']
           | _ \<Rightarrow> False" by code_simp
  obtain a where a1: "?r = Some (Inr a)"
  proof (cases ?r)
    case None
    with e show ?thesis by simp
  next
    case (Some x)
    with e that show ?thesis by (cases x) simp_all
  qed
  from e have a2: "map flag_type (flags a)
       = [''outcome_without_baseline'', ''outcome_without_scope'', ''proof_implied_no_evidence'',
          ''outcome_without_mechanism'']"
    and a3: "filter (features_get (features a)) bonus_names = [''metric_present'', ''timeframe_present'']"
    by (simp_all only: a1 option.case sum.case)
  have w: "wt sample_analyzer ''penalties'' = Some sample_penalties"
    "wt sample_analyzer ''bonuses'' = Some sample_bonuses"
    by (simp_all add: sample_analyzer_def sample_wt_def)
  from breakdown_sums[OF a1] obtain P B where
    p1: "wt sample_analyzer ''penalties'' = Some P" and p2: "wt sample_analyzer ''bonuses'' = Some B"
    and p3: "penalties (score_breakdown a) = sum_list (map (weight_of P) (map flag_type (flags a)))"
    and p4: "bonus (score_breakdown a)
       = sum_list (map (weight_of B) (filter (features_get (features a)) bonus_names))"
    by (elim exE conjE)
  from p1 p2 w have PB: "P = sample_penalties" "B = sample_bonuses" by simp_all
  have a4: "penalties (score_breakdown a) = 10 + 10 + 15 + 15"
    unfolding p3 a2 PB by (simp add: weight_of_def sample_penalties_def)
  have a5: "bonus (score_breakdown a) = 10 + 5"
    unfolding p4 a3 PB by (simp add: weight_of_def sample_bonuses_def)
  show ?thesis by (intro exI[of _ a] conjI) (fact a1 a2 a3 a4 a5)+
qed

subsection \<open>Outcome flags, and a change of one weight\<close>

lemma result_caseE:
  assumes "case r of None \<Rightarrow> False | Some (Inl e) \<Rightarrow> False | Some (Inr a) \<Rightarrow> Q a"
  obtains a where "r = Some (Inr a)" "Q a"
proof (cases r)
  case None
  with assms show ?thesis by simp
next
  case (Some x)
  with assms that show ?thesis by (cases x) simp_all
qed

lemma flags_of_rules:
  assumes "penalties_of rt P f sp s s_l = Inr st"
  shows "map flag_type (snd st) = map (\<lambda>r. fst (snd r)) (filter fst (penalty_rules rt f sp s s_l))"
proof -
  from assms have "run_rules P (penalty_rules rt f sp s s_l) (0, []) = Inr st"
    by (simp add: penalties_of_run_rules)
  from run_rules_Inr[OF this] show ?thesis by (simp add: map_filter_names)
qed

text \<open>
  Claim C8, as the code has it. When the outcome feature is true and the metric, baseline,
  scope and mechanism features are all false, the four flags \<open>outcome_without_metric\<close>,
  \<open>outcome_without_baseline\<close>, \<open>outcome_without_scope\<close> and
  \<open>outcome_without_mechanism\<close> are raised, in this order; each of the six other rules adds
  its flag at its place when its own trigger holds, so the four are the only flags exactly
  when none of the other triggers holds.
\<close>

theorem outcome_flags:
  assumes "analyze_sentence rt A s = Some (Inr a)"
    and "outcome_present (features a)" and "\<not> metric_present (features a)"
    and "\<not> baseline_present (features a)" and "\<not> scope_present (features a)"
    and "\<not> mechanism_present (features a)"
  shows "map flag_type (flags a) =
     [''outcome_without_metric'']
     @ (if speed_present (features a) \<and> \<not> timeframe_present (features a)
        then [''speed_without_timeframe''] else [])
     @ [''outcome_without_baseline'', ''outcome_without_scope'']
     @ (if proof_implied (features a) then [''proof_implied_no_evidence''] else [])
     @ (if buzzword_present (features a) then [''buzzword_no_mechanism''] else [])
     @ [''outcome_without_mechanism'']
     @ (if process_search rt (str_lower rt s) then [''process_no_levers''] else [])
     @ (if passive_present (features a) then [''passive_voice''] else [])
     @ (if superlative_present (features a) then [''superlative_unbounded''] else [])"
proof -
  from assms(1) obtain sp cls P B st bon where
    st: "penalties_of rt P (features_of sp) sp s (str_lower rt s) = Inr st"
    and a: "a = \<lparr>sentence = s, semantic_class = cls, features = features_of sp, flags = snd st,
          score_breakdown = \<lparr>penalties = fst st, bonus = bon\<rparr>,
          total_score = max 0 (min 100 (fst st - bon))\<rparr>"
    by (rule analyze_sentence_Inr)
  from a have fa: "features a = features_of sp" and fl: "flags a = snd st" by simp_all
  note f = assms(2-6)[unfolded fa]
  show ?thesis
    unfolding fl fa flags_of_rules[OF st]
    using f by (simp add: penalty_rules_def)
qed

lemma count_distinct:
  "distinct (map g xs) \<Longrightarrow>
     length (filter (\<lambda>x. g x = k) xs) = (if k \<in> set (map g xs) then 1 else 0)"
proof (induction xs)
  case Nil
  then show ?case by simp
next
  case (Cons x xs)
  then show ?case by (auto simp: filter_empty_conv)
qed

lemma collect_spans_wt: "collect_spans rt (A\<lparr>wt := w\<rparr>) s = collect_spans rt A s"
  by (simp add: collect_spans_def)

text \<open>
  Claim C5, as the code has it. Replacing the weight \<open>w\<close> of one penalty rule by \<open>w'\<close> leaves
  the analysis of a sentence as it is, except that \<open>penalties\<close> grows by \<open>w' - w\<close> when
  the rule is among the flags (and by nothing otherwise) and the total score is the clamp of
  the new \<open>penalties - bonus\<close>. So an untriggered rule changes nothing, and a triggered
  one moves the total by exactly \<open>w' - w\<close> as long as both raw scores lie in 0..100.
\<close>

theorem penalty_weight_change:
  assumes P: "wt A ''penalties'' = Some P" and k: "P k = Some w"
    and r: "analyze_sentence rt A s = Some (Inr a)"
  shows "analyze_sentence rt (A\<lparr>wt := (wt A)(''penalties'' \<mapsto> P(k \<mapsto> w'))\<rparr>) s
      = Some (Inr (a\<lparr>score_breakdown :=
                        \<lparr>penalties = penalties (score_breakdown a)
                            + (if k \<in> set (map flag_type (flags a)) then w' - w else 0),
                         bonus = bonus (score_breakdown a)\<rparr>,
                     total_score := max 0 (min 100 (penalties (score_breakdown a)
                            + (if k \<in> set (map flag_type (flags a)) then w' - w else 0)
                            - bonus (score_breakdown a)))\<rparr>))"
proof -
  let ?A = "A\<lparr>wt := (wt A)(''penalties'' \<mapsto> P(k \<mapsto> w'))\<rparr>"
  from r obtain sp cls P0 B st bon where
    sp: "collect_spans rt A s = Some (Inr sp)"
    and cls: "semantic_class_of (sc A) (features_of sp) = Inr cls"
    and P0: "wt A ''penalties'' = Some P0" and B: "wt A ''bonuses'' = Some B"
    and st: "penalties_of rt P0 (features_of sp) sp s (str_lower rt s) = Inr st"
    and bon: "bonus_of B (features_of sp) = Inr bon"
    and a: "a = \<lparr>sentence = s, semantic_class = cls, features = features_of sp, flags = snd st,
          score_breakdown = \<lparr>penalties = fst st, bonus = bon\<rparr>,
          total_score = max 0 (min 100 (fst st - bon))\<rparr>"
    by (rule analyze_sentence_Inr)
  from P P0 have [simp]: "P0 = P" by simp
  let ?rs = "penalty_rules rt (features_of sp) sp s (str_lower rt s)"
  let ?d = "if k \<in> set (map flag_type (snd st)) then w' - w else 0"
  from st have run: "run_rules P ?rs (0, []) = Inr st" by (simp add: penalties_of_run_rules)
  have dist: "distinct (map (\<lambda>r. fst (snd r)) (filter fst ?rs))"
    using penalty_names_distinct
    by (intro distinct_map_filter) (simp only: penalty_rule_names)
  have c: "length (filter (\<lambda>r. fst (snd r) = k) (filter fst ?rs))
             = (if k \<in> set (map (\<lambda>r. fst (snd r)) (filter fst ?rs)) then 1 else 0)"
    by (rule count_distinct[OF dist])
  have n: "map flag_type (snd st) = map (\<lambda>r. fst (snd r)) (filter fst ?rs)"
    using st by (simp add: flags_of_rules)
  have cnt: "int (length (filter (\<lambda>r. fst (snd r) = k) (filter fst ?rs))) * (w' - w) = ?d"
    unfolding c n by simp
  have st': "penalties_of rt (P(k \<mapsto> w')) (features_of sp) sp s (str_lower rt s)
               = Inr (fst st + ?d, snd st)"
    using run_rules_update[OF run k, of w'] cnt
    by (simp add: penalties_of_run_rules mult.commute)
  have "analyze_sentence rt ?A s
      = Some (Inr \<lparr>sentence = s, semantic_class = cls, features = features_of sp, flags = snd st,
          score_breakdown = \<lparr>penalties = fst st + ?d, bonus = bon\<rparr>,
          total_score = max 0 (min 100 (fst st + ?d - bon))\<rparr>)"
    by (simp add: analyze_sentence_def collect_spans_wt sp cls B st' bon dict_get_def Let_def)
  then show ?thesis by (simp add: a)
qed

theorem outcome_flags_witness:
  "\<exists>a. analyze_sentence sample_rt sample_analyzer (ustr_of ''Grew fast'') = Some (Inr a)
       \<and> map flag_type (flags a)
           = [''outcome_without_metric'', ''speed_without_timeframe'', ''outcome_without_baseline'',
              ''outcome_without_scope'', ''outcome_without_mechanism'']"
proof -
  let ?r = "analyze_sentence sample_rt sample_analyzer (ustr_of ''Grew fast'')"
  have e: "case ?r of
             Some (Inr a) \<Rightarrow> features a =
               \<lparr>outcome_present = True, speed_present = True, hedge_present = False,
                superlative_present = False, proof_implied = False, buzzword_present = False,
                mechanism_present = False, values_present = False, metric_present = False,
                timeframe_present = False, baseline_present = False, scope_present = False,
                passive_present = False\<rparr>
           | _ \<Rightarrow> False" by code_simp
  have p: "\<not> process_search sample_rt (str_lower sample_rt (ustr_of ''Grew fast''))"
    by code_simp
  from e obtain a where a1: "?r = Some (Inr a)" and f: "features a =
               \<lparr>outcome_present = True, speed_present = True, hedge_present = False,
                superlative_present = False, proof_implied = False, buzzword_present = False,
                mechanism_present = False, values_present = False, metric_present = False,
                timeframe_present = False, baseline_present = False, scope_present = False,
                passive_present = False\<rparr>"
    by (rule result_caseE)
  have "map flag_type (flags a)
           = [''outcome_without_metric'', ''speed_without_timeframe'', ''outcome_without_baseline'',
              ''outcome_without_scope'', ''outcome_without_mechanism'']"
    using outcome_flags[OF a1] p by (simp add: f)
  with a1 show ?thesis by (intro exI[of _ a] conjI)
qed

text \<open>
  With a proof-theater phrase in the sentence as well, the same features give five flags.
\<close>

theorem four_flags_counterexample:
  "\<exists>a. analyze_sentence sample_rt sample_analyzer (ustr_of ''Grew, proven'') = Some (Inr a)
       \<and> (outcome_present (features a) \<and> \<not> metric_present (features a)
          \<and> \<not> baseline_present (features a) \<and> \<not> scope_present (features a)
          \<and> \<not> mechanism_present (features a))
       \<and> map flag_type (flags a)
           = [''outcome_without_metric'', ''outcome_without_baseline'', ''outcome_without_scope'',
              ''proof_implied_no_evidence'', ''outcome_without_mechanism'']"
proof -
  let ?r = "analyze_sentence sample_rt sample_analyzer (ustr_of ''Grew, proven'')"
  have e: "case ?r of
             Some (Inr a) \<Rightarrow>
               (outcome_present (features a) \<and> \<not> metric_present (features a)
                \<and> \<not> baseline_present (features a) \<and> \<not> scope_present (features a)
                \<and> \<not> mechanism_present (features a))
               \<and> map flag_type (flags a)
                   = [''outcome_without_metric'', ''outcome_without_baseline'',
                      ''outcome_without_scope'', ''proof_implied_no_evidence'',
                      ''outcome_without_mechanism'']
           | _ \<Rightarrow> False" by code_simp
  from e obtain a where a1: "?r = Some (Inr a)" and
    q: "(outcome_present (features a) \<and> \<not> metric_present (features a)
                \<and> \<not> baseline_present (features a) \<and> \<not> scope_present (features a)
                \<and> \<not> mechanism_present (features a))
               \<and> map flag_type (flags a)
                   = [''outcome_without_metric'', ''outcome_without_baseline'',
                      ''outcome_without_scope'', ''proof_implied_no_evidence'',
                      ''outcome_without_mechanism'']"
    by (rule result_caseE)
  show ?thesis by (rule exI[of _ a], rule conjI[OF a1 q])
qed

theorem penalty_weight_change_witness:
  "\<exists>a a'. analyze_sentence sample_rt sample_analyzer (ustr_of ''Grew'') = Some (Inr a)
       \<and> analyze_sentence sample_rt (heavier_analyzer 35) (ustr_of ''Grew'') = Some (Inr a')
       \<and> penalties (score_breakdown a) = 60 \<and> penalties (score_breakdown a') = 70
       \<and> total_score a = 60 \<and> total_score a' = 70"
proof -
  let ?r = "analyze_sentence sample_rt sample_analyzer (ustr_of ''Grew'')"
  have e: "case ?r of
             Some (Inr a) \<Rightarrow> penalties (score_breakdown a) = 60 \<and> bonus (score_breakdown a) = 0
               \<and> total_score a = 60
               \<and> map flag_type (flags a) = [''outcome_without_metric'', ''outcome_without_baseline'',
                      ''outcome_without_scope'', ''outcome_without_mechanism'']
           | _ \<Rightarrow> False" by code_simp
  from e obtain a where a1: "?r = Some (Inr a)"
    and q: "penalties (score_breakdown a) = 60 \<and> bonus (score_breakdown a) = 0
               \<and> total_score a = 60
               \<and> map flag_type (flags a) = [''outcome_without_metric'', ''outcome_without_baseline'',
                      ''outcome_without_scope'', ''outcome_without_mechanism'']"
    by (rule result_caseE)
  have w: "wt sample_analyzer ''penalties'' = Some sample_penalties"
    by (simp add: sample_analyzer_def sample_wt_def)
  have k: "sample_penalties ''outcome_without_metric'' = Some 25"
    by (simp add: sample_penalties_def)
  note t = penalty_weight_change[OF w k a1, of 35, folded heavier_analyzer_def]
  let ?a' = "a\<lparr>score_breakdown := \<lparr>penalties = 70, bonus = 0\<rparr>, total_score := 70\<rparr>"
  from t q have a2: "analyze_sentence sample_rt (heavier_analyzer 35) (ustr_of ''Grew'') = Some (Inr ?a')"
    by simp
  show ?thesis
    using a1 a2 q by (intro exI[of _ a] exI[of _ ?a'] conjI) simp_all
qed

text \<open>
  Raising the triggered weight from 25 to 125 moves the total score from 60 to 100 only:
  the clamp absorbs the rest.
\<close>

theorem weight_delta_counterexample:
  "\<exists>a a'. analyze_sentence sample_rt sample_analyzer (ustr_of ''Grew'') = Some (Inr a)
       \<and> analyze_sentence sample_rt (heavier_analyzer 125) (ustr_of ''Grew'') = Some (Inr a')
       \<and> ''outcome_without_metric'' \<in> set (map flag_type (flags a))
       \<and> total_score a' - total_score a \<noteq> 125 - 25"
proof -
  let ?r = "analyze_sentence sample_rt sample_analyzer (ustr_of ''Grew'')"
  let ?r' = "analyze_sentence sample_rt (heavier_analyzer 125) (ustr_of ''Grew'')"
  have e: "case ?r of
             Some (Inr a) \<Rightarrow> total_score a = 60
               \<and> ''outcome_without_metric'' \<in> set (map flag_type (flags a))
           | _ \<Rightarrow> False" by code_simp
  have e': "case ?r' of Some (Inr a) \<Rightarrow> total_score a = 100 | _ \<Rightarrow> False" by code_simp
  from e obtain a where a1: "?r = Some (Inr a)"
    and q: "total_score a = 60 \<and> ''outcome_without_metric'' \<in> set (map flag_type (flags a))"
    by (rule result_caseE)
  from e' obtain a' where a2: "?r' = Some (Inr a')" and q': "total_score a' = 100"
    by (rule result_caseE)
  from q q' have "total_score a' - total_score a \<noteq> 125 - 25" by simp
  with a1 a2 q show ?thesis by (intro exI[of _ a] exI[of _ a'] conjI) simp_all
qed

subsection \<open>Missing keys, classification, and the label\<close>






lemma consulted_rule:
  assumes "semantic_class_of c f = Inr cls" and "map_of c ''values_non_operational'' = Some rule"
  shows "cls = (if rule_matches rule f then ''values_non_operational'' else ''operational_or_mixed'')"
proof (cases "rule = []")
  case True
  with assms show ?thesis by (simp add: semantic_class_of_def rule_matches_def)
next
  case False
  with assms have h: "ebind (dict_get (map_of rule) ''requires'') (\<lambda>req.
                 if list_all (features_get f) req
                 then ebind (dict_get (map_of rule) ''forbids'') (\<lambda>forb.
                        if list_all (\<lambda>k. \<not> features_get f k) forb
                        then Inr ''values_non_operational''
                        else Inr ''operational_or_mixed'')
                 else Inr ''operational_or_mixed'') = Inr cls"
    by (simp add: semantic_class_of_def)
  then obtain req where req: "map_of rule ''requires'' = Some req"
    and h2: "(if list_all (features_get f) req
                 then ebind (dict_get (map_of rule) ''forbids'') (\<lambda>forb.
                        if list_all (\<lambda>k. \<not> features_get f k) forb
                        then Inr ''values_non_operational''
                        else Inr ''operational_or_mixed'')
                 else Inr ''operational_or_mixed'') = Inr cls"
    unfolding ebind_eq_Inr dict_get_eq_Inr by blast
  show ?thesis
  proof (cases "list_all (features_get f) req")
    case True
    with h2 have h2': "ebind (dict_get (map_of rule) ''forbids'') (\<lambda>forb.
                        if list_all (\<lambda>k. \<not> features_get f k) forb
                        then Inr ''values_non_operational''
                        else Inr ''operational_or_mixed'') = Inr cls"
      by (simp only: if_True)
    then obtain forb where forb: "map_of rule ''forbids'' = Some forb"
      and h3: "(if list_all (\<lambda>k. \<not> features_get f k) forb
                        then Inr ''values_non_operational''
                        else Inr ''operational_or_mixed'') = (Inr cls :: error + string)"
      unfolding ebind_eq_Inr dict_get_eq_Inr by blast
    from h3 True show ?thesis
      unfolding rule_matches_def req forb by (cases "list_all (\<lambda>k. \<not> features_get f k) forb") simp_all
  next
    case False
    with h2 have "cls = ''operational_or_mixed''" by simp
    with False show ?thesis
      unfolding rule_matches_def req by (cases "map_of rule ''forbids''") simp_all
  qed
qed

text \<open>
  Claim C6, as the code has it. Only the class named \<open>values_non_operational\<close> is
  consulted: the result is that name when its rule fully matches and the default
  otherwise, and every other entry of the document is ignored, wherever it stands.
\<close>

theorem only_values_class_consulted:
  "(semantic_class_of c f = Inr cls \<longrightarrow>
      cls = (case map_of c ''values_non_operational'' of
               None \<Rightarrow> ''operational_or_mixed''
             | Some rule \<Rightarrow> if rule_matches rule f then ''values_non_operational''
                            else ''operational_or_mixed''))
   \<and> (map_of c' ''values_non_operational'' = map_of c ''values_non_operational'' \<longrightarrow>
        semantic_class_of c' f = semantic_class_of c f)"
proof (intro conjI impI)
  assume h: "semantic_class_of c f = Inr cls"
  show "cls = (case map_of c ''values_non_operational'' of
               None \<Rightarrow> ''operational_or_mixed''
             | Some rule \<Rightarrow> if rule_matches rule f then ''values_non_operational''
                            else ''operational_or_mixed'')"
  proof (cases "map_of c ''values_non_operational''")
    case None
    with h show ?thesis by (simp add: semantic_class_of_def)
  next
    case (Some rule)
    from consulted_rule[OF h Some] Some show ?thesis by (simp only: option.case)
  qed
next
  assume "map_of c' ''values_non_operational'' = map_of c ''values_non_operational''"
  then show "semantic_class_of c' f = semantic_class_of c f"
    by (simp only: semantic_class_of_def)
qed

lemma label_mean:
  assumes "0 < n"
  shows "label (of_int S / of_nat n) =
     (if S \<le> 25 * int n then ''Solid / operational''
      else if S \<le> 50 * int n then ''Soft marketing''
      else if S \<le> 75 * int n then ''High BS risk''
      else ''Persuasion fog'')"
proof -
  have le: "((of_int S :: rat) / of_nat n \<le> of_int c) = (S \<le> c * int n)" for c
  proof -
    from assms have "((of_int S :: rat) / of_nat n \<le> of_int c) = ((of_int S :: rat) \<le> of_int c * of_nat n)"
      by (simp add: pos_divide_le_eq)
    also have "\<dots> = ((of_int S :: rat) \<le> of_int (c * int n))" by simp
    also have "\<dots> = (S \<le> c * int n)" by (rule of_int_le_iff)
    finally show ?thesis .
  qed
  from le[of 25] le[of 50] le[of 75] show ?thesis by (simp add: label_def)
qed

text \<open>
  Claim C4, as the code has it. For a non-empty list of analyses the label is the
  four-way threshold applied to the unrounded mean of the total scores, that is to the
  comparison of their sum with 25, 50 and 75 times their number.
\<close>

theorem label_of_unrounded_mean:
  assumes "analyze_text rt A t = Some (Inr r)" and "result_sentences r \<noteq> []"
  shows "overall_label (result_overall r) =
     (if sum_list (map total_score (result_sentences r)) \<le> 25 * int (length (result_sentences r))
      then ''Solid / operational''
      else if sum_list (map total_score (result_sentences r)) \<le> 50 * int (length (result_sentences r))
      then ''Soft marketing''
      else if sum_list (map total_score (result_sentences r)) \<le> 75 * int (length (result_sentences r))
      then ''High BS risk''
      else ''Persuasion fog'')"
proof -
  from assms(1) obtain analyses where
    r: "r = (if analyses = []
         then \<lparr>result_overall =
                 \<lparr>score_mean = 0, score_worst_sentence = None, pct_sentences_high_bs = None,
                  overall_label = ''Empty'', n_sentences = 0\<rparr>,
               result_sentences = []\<rparr>
         else \<lparr>result_overall = overall_of rt analyses, result_sentences = analyses\<rparr>)"
    by (auto simp: analyze_text_def bindr_eq_Inr)
  with assms(2) have ne: "analyses \<noteq> []" by (auto split: if_splits)
  with r have r': "result_overall r = overall_of rt analyses" "result_sentences r = analyses"
    by simp_all
  from ne have "0 < length analyses" by simp
  from label_mean[OF this, of "sum_list (map total_score analyses)"]
  show ?thesis unfolding r' by (simp add: overall_of_def Let_def)
qed




text \<open>
  A first class \<open>hype\<close> that fully matches is not assigned: first-match evaluation would
  answer \<open>hype\<close>, the code answers the default.
\<close>

theorem first_match_counterexample:
  "semantic_class_of sc_three_classes superlative_only = Inr ''operational_or_mixed''
   \<and> classify_first_match sc_three_classes superlative_only = ''hype''"
  by code_simp

theorem only_values_class_consulted_witness:
  "semantic_class_of sc_three_classes values_only = Inr ''values_non_operational''
   \<and> semantic_class_of sample_sc values_only = Inr ''values_non_operational''"
proof -
  have m: "map_of sc_three_classes ''values_non_operational''
             = map_of sample_sc ''values_non_operational''"
    by (simp add: sc_three_classes_def sample_sc_def)
  note eq = only_values_class_consulted[where c' = sc_three_classes and c = sample_sc
      and f = values_only, THEN conjunct2, rule_format, OF m]
  have e: "semantic_class_of sample_sc values_only = Inr ''values_non_operational''"
    by code_simp
  from eq e show ?thesis by simp
qed

theorem label_of_unrounded_mean_witness:
  "\<exists>r. analyze_text sample_rt sample_analyzer (ustr_of ''Grew. Proven!'') = Some (Inr r)
       \<and> map total_score (result_sentences r) = [60, 15]
       \<and> overall_label (result_overall r) = ''Soft marketing''"
proof -
  let ?r = "analyze_text sample_rt sample_analyzer (ustr_of ''Grew. Proven!'')"
  have e: "case ?r of Some (Inr r) \<Rightarrow> map total_score (result_sentences r) = [60, 15]
           | _ \<Rightarrow> False" by code_simp
  from e obtain r where r1: "?r = Some (Inr r)"
    and r2: "map total_score (result_sentences r) = [60, 15]"
    by (rule result_caseE)
  from r2 have ne: "result_sentences r \<noteq> []" by auto
  from r2 have len: "length (result_sentences r) = 2"
    using length_map[of total_score "result_sentences r"] by simp
  from label_of_unrounded_mean[OF r1 ne]
  have r3: "overall_label (result_overall r) = ''Soft marketing''"
    by (simp add: r2 len)
  show ?thesis by (intro exI[of _ r] conjI) (fact r1 r2 r3)+
qed

lemma analyze_all_append:
  assumes "analyze_all rt A xs = Some (Inr as)" and "analyze_all rt A ys = Some (Inr bs)"
  shows "analyze_all rt A (xs @ ys) = Some (Inr (as @ bs))"
  using assms(1)
proof (induction xs arbitrary: as)
  case Nil
  with assms(2) show ?case by simp
next
  case (Cons x xs)
  from Cons.prems obtain a rest where a: "analyze_sentence rt A x = Some (Inr a)"
    and rest: "analyze_all rt A xs = Some (Inr rest)" and as: "as = a # rest"
    by (auto simp: bindr_eq_Inr)
  from Cons.IH[OF rest] a as show ?case by simp
qed

lemma analyze_all_replicate:
  assumes "analyze_sentence rt A s = Some (Inr a)"
  shows "analyze_all rt A (replicate n s) = Some (Inr (replicate n a))"
  using assms by (induction n) simp_all

lemma round_fog: "round_half_even1 (526 / 21) = 25"
proof -
  have f: "\<lfloor>(5260 :: rat) / 21\<rfloor> = 250" by (rule floor_unique) simp_all
  have y: "(526 / 21 :: rat) * 10 = 5260 / 21" by simp
  show ?thesis unfolding round_half_even1_def Let_def y f by simp
qed

lemma overall_of_score_mean:
  "score_mean (overall_of rt xs)
     = round1 rt (of_int (sum_list (map total_score xs)) / of_nat (length xs))"
  by (simp add: overall_of_def Let_def)

lemma overall_of_label:
  "overall_label (overall_of rt xs)
     = label (of_int (sum_list (map total_score xs)) / of_nat (length xs))"
  by (simp add: overall_of_def Let_def)

text \<open>
  Twenty sentences of score 25 and one of score 26: the mean 526/21 is reported as 25.0,
  whose label would be \<open>Solid / operational\<close>, but the label given is that of the
  unrounded mean, \<open>Soft marketing\<close>.
\<close>

theorem rounded_mean_label_counterexample:
  "\<exists>r. analyze_text sample_rt fog_analyzer fog_text = Some (Inr r)
       \<and> (n_sentences (result_overall r) = 21
          \<and> sum_list (map total_score (result_sentences r)) = 526
          \<and> score_mean (result_overall r) = 25
          \<and> overall_label (result_overall r) = ''Soft marketing''
          \<and> label (score_mean (result_overall r)) = ''Solid / operational'')"
proof -
  let ?s1 = "ustr_of ''Done by.''" and ?s2 = "ustr_of ''Proven, done by.''"
  have sp: "split_sentences sample_rt fog_text = replicate 20 ?s1 @ [?s2]"
    by code_simp
  have e1: "case analyze_sentence sample_rt fog_analyzer ?s1 of
              Some (Inr a) \<Rightarrow> total_score a = 25 | _ \<Rightarrow> False" by code_simp
  have e2: "case analyze_sentence sample_rt fog_analyzer ?s2 of
              Some (Inr a) \<Rightarrow> total_score a = 26 | _ \<Rightarrow> False" by code_simp
  from e1 obtain a where a1: "analyze_sentence sample_rt fog_analyzer ?s1 = Some (Inr a)"
    and a2: "total_score a = 25" by (rule result_caseE)
  from e2 obtain b where b1: "analyze_sentence sample_rt fog_analyzer ?s2 = Some (Inr b)"
    and b2: "total_score b = 26" by (rule result_caseE)
  let ?as = "replicate 20 a @ [b]"
  have "analyze_all sample_rt fog_analyzer [?s2] = Some (Inr [b])" by (simp add: b1)
  from analyze_all_append[OF analyze_all_replicate[OF a1, of 20] this]
  have all: "analyze_all sample_rt fog_analyzer (replicate 20 ?s1 @ [?s2]) = Some (Inr ?as)" .
  have ne: "?as \<noteq> []" by simp
  let ?r = "\<lparr>result_overall = overall_of sample_rt ?as, result_sentences = ?as\<rparr>"
  have r: "analyze_text sample_rt fog_analyzer fog_text = Some (Inr ?r)"
    unfolding analyze_text_def sp all by simp
  have sc: "map total_score ?as = replicate 20 25 @ [26]" by (simp add: a2 b2)
  have sm: "sum_list (map total_score ?as) = 526" unfolding sc by (simp add: sum_list_replicate)
  have rd: "round1 sample_rt = round_half_even1" by (simp add: sample_rt_def)
  have len: "length ?as = 21" by simp
  have o1: "score_mean (overall_of sample_rt ?as) = 25"
    unfolding overall_of_score_mean sm len rd by (simp add: round_fog)
  have o2: "overall_label (overall_of sample_rt ?as) = ''Soft marketing''"
    unfolding overall_of_label sm len by (simp add: label_def)
  have o3: "label 25 = ''Solid / operational''" by (simp add: label_def)
  have o4: "n_sentences (overall_of sample_rt ?as) = 21"
    by (simp add: overall_of_def Let_def)
  show ?thesis
    by (rule exI[of _ ?r]) (simp only: r o1 o2 o3 o4 sm analysis_result.simps simp_thms)
qed

subsection \<open>Phrase matching and span offsets\<close>

lemma sample_lower_Nil: "str_lower sample_rt [] = []"
  by (simp add: sample_rt_def)

text \<open>
  Claim C7 at a phrase list that holds the empty string. \<open>find\<close> answers \<open>start\<close> itself
  for the empty phrase and \<open>start\<close> advances by its length 0, so the loop never leaves:
  \<open>find_phrase_spans\<close> produces no span list, and neither does an analysis whose lexicon
  holds such a phrase. For phrase lists without it the claim holds, see
  \<open>find_phrase_spans_greedy\<close> below.
\<close>

theorem empty_phrase_never_returns:
  "find_phrase_spans sample_rt (ustr_of ''a'') [ustr_of ''may'', []] (ustr_of ''a'') = None
   \<and> analyze_sentence sample_rt empty_phrase_analyzer (ustr_of ''a'') = None"
proof (rule conjI)
  have d: "phrases_loop sample_rt t [ustr_of ''may'', []] original spans = None" for t original spans
    by (rule phrases_loop_empty_phrase) (simp add: sample_lower_Nil)
  then show "find_phrase_spans sample_rt (ustr_of ''a'') [ustr_of ''may'', []] (ustr_of ''a'') = None"
    by (simp add: find_phrase_spans_def)
  let ?L = "sample_lex(''hedges'' \<mapsto> [ustr_of ''may'', []])"
  let ?sl = "str_lower sample_rt (ustr_of ''a'')"
  have l1: "lex_spans sample_rt ?L ''outcome_verbs'' ?sl (ustr_of ''a'') = Some (Inr [])"
    by code_simp
  have l2: "lex_spans sample_rt ?L ''speed_words'' ?sl (ustr_of ''a'') = Some (Inr [])"
    by code_simp
  have l3: "lex_spans sample_rt ?L ''hedges'' ?sl (ustr_of ''a'') = None"
    using d by (simp add: lex_spans_def find_phrase_spans_def)
  show "analyze_sentence sample_rt empty_phrase_analyzer (ustr_of ''a'') = None"
    by (simp add: analyze_sentence_def collect_spans_def empty_phrase_analyzer_def Let_def l1 l2 l3)
qed

text \<open>
  Claim C2 at a sentence whose lowercase form is longer than the sentence. The phrase is
  found at index 3 of the lowercased text; the span keeps that index and ends at 7, past
  the six code points of the sentence, and its text is \<open>rew\<close>, not the matched \<open>grew\<close>.
  Where lowercasing keeps the length, every flag span lies inside the sentence, see
  \<open>flag_spans_in_range\<close> below.
\<close>

theorem phrase_span_past_end:
  "\<exists>a. analyze_sentence sample_rt sample_analyzer dotted_sentence = Some (Inr a)
       \<and> (length (sentence a) = 6
          \<and> map flag_spans (flags a)
              = replicate 4 [\<lparr>span_start = 3, span_end = 7, span_text = ustr_of ''rew''\<rparr>])"
proof -
  let ?r = "analyze_sentence sample_rt sample_analyzer dotted_sentence"
  have e: "case ?r of
             Some (Inr a) \<Rightarrow>
               (length (sentence a) = 6
                \<and> map flag_spans (flags a)
                    = replicate 4 [\<lparr>span_start = 3, span_end = 7, span_text = ustr_of ''rew''\<rparr>])
           | _ \<Rightarrow> False" by code_simp
  from e obtain a where a1: "?r = Some (Inr a)" and
    q: "(length (sentence a) = 6
                \<and> map flag_spans (flags a)
                    = replicate 4 [\<lparr>span_start = 3, span_end = 7, span_text = ustr_of ''rew''\<rparr>])"
    by (rule result_caseE)
  show ?thesis by (rule exI[of _ a], rule conjI[OF a1 q])
qed

lemma find_phrase_spans_greedy:
  assumes "\<forall>p \<in> set phrases. str_lower rt p \<noteq> []"
  shows "\<exists>iss. list_all2 (\<lambda>p is. greedy_occs text_l (str_lower rt p) 0 is) phrases iss
           \<and> find_phrase_spans rt text_l phrases original
               = Some (concat (map2 (\<lambda>p is. map (span_at original (length (str_lower rt p))) is)
                                phrases iss))"
  using phrases_loop_returns[OF assms, of text_l original "[]"]
  by (simp add: find_phrase_spans_def)

lemma find_phrase_spans_Some_iff:
  "(\<exists>spans. find_phrase_spans rt text_l phrases original = Some spans)
     = (\<forall>p \<in> set phrases. str_lower rt p \<noteq> [])"
proof
  assume a: "\<exists>spans. find_phrase_spans rt text_l phrases original = Some spans"
  show "\<forall>p \<in> set phrases. str_lower rt p \<noteq> []"
  proof (rule ccontr)
    assume "\<not> (\<forall>p \<in> set phrases. str_lower rt p \<noteq> [])"
    then have "\<exists>p \<in> set phrases. str_lower rt p = []" by simp
    from phrases_loop_empty_phrase[OF this, of text_l original "[]"] a
    show False by (simp add: find_phrase_spans_def)
  qed
next
  assume "\<forall>p \<in> set phrases. str_lower rt p \<noteq> []"
  then show "\<exists>spans. find_phrase_spans rt text_l phrases original = Some spans"
    by (rule find_phrase_spans_returns)
qed

lemma greedy_occs_bound:
  "greedy_occs t p lo is \<Longrightarrow> \<forall>i \<in> set is. i + length p \<le> length t"
  by (induction "is" arbitrary: lo) (auto simp: occurs_at_def)

lemma span_at_ok: "i + n \<le> length s \<Longrightarrow> span_ok s (span_at s n i)"
  by (simp add: span_ok_def span_at_def)

lemma find_phrase_spans_ok:
  assumes r: "find_phrase_spans rt t ps s = Some spans" and len: "length t = length s"
  shows "\<forall>sp \<in> set spans. span_ok s sp"
proof -
  from r have ne: "\<forall>p \<in> set ps. str_lower rt p \<noteq> []"
    using find_phrase_spans_Some_iff[of rt t ps s] by blast
  from find_phrase_spans_greedy[OF ne, of t s] r obtain iss where
    g: "list_all2 (\<lambda>p is. greedy_occs t (str_lower rt p) 0 is) ps iss"
    and sp: "spans = concat (map2 (\<lambda>p is. map (span_at s (length (str_lower rt p))) is) ps iss)"
    by auto
  show ?thesis
  proof
    fix x assume "x \<in> set spans"
    with sp obtain p js i where pj: "(p, js) \<in> set (zip ps iss)" and i: "i \<in> set js"
      and x: "x = span_at s (length (str_lower rt p)) i" by auto
    from pj g have "greedy_occs t (str_lower rt p) 0 js"
      by (auto simp: list_all2_iff)
    from greedy_occs_bound[OF this] i len have "i + length (str_lower rt p) \<le> length s" by auto
    then show "span_ok s x" unfolding x by (rule span_at_ok)
  qed
qed

lemma find_spans_regex_ok:
  assumes "\<forall>m \<in> set (pat s). fst m \<le> snd m \<and> snd m \<le> length s"
  shows "\<forall>sp \<in> set (find_spans_regex pat s). span_ok s sp"
  using assms by (auto simp: find_spans_regex_def span_ok_def)

lemma lex_spans_ok:
  assumes "lex_spans rt lx k t s = Some (Inr l)" and "length t = length s"
  shows "\<forall>x \<in> set l. span_ok s x"
proof -
  from assms(1) obtain ps where "find_phrase_spans rt t ps s = Some l"
    by (auto simp: lex_spans_def split: option.splits)
  from find_phrase_spans_ok[OF this assms(2)] show ?thesis .
qed

lemma collect_spans_ok:
  assumes c: "collect_spans rt A s = Some (Inr sp)"
    and len: "length (str_lower rt s) = length s"
    and rx: "\<forall>m \<in> set (re_passive A s). fst m \<le> snd m \<and> snd m \<le> length s"
  shows "\<forall>xs \<in> {outcome_spans sp, speed_spans sp, super_spans sp, proof_spans sp,
                  buzz_spans sp, passive_spans sp}. \<forall>x \<in> set xs. span_ok s x"
proof -
  from c obtain l1 l2 l3 l4 l5 l6 l7 l8 where
    l: "lex_spans rt (lex A) ''outcome_verbs'' (str_lower rt s) s = Some (Inr l1)"
       "lex_spans rt (lex A) ''speed_words'' (str_lower rt s) s = Some (Inr l2)"
       "lex_spans rt (lex A) ''superlatives'' (str_lower rt s) s = Some (Inr l4)"
       "lex_spans rt (lex A) ''proof_theater'' (str_lower rt s) s = Some (Inr l5)"
       "lex_spans rt (lex A) ''buzzwords'' (str_lower rt s) s = Some (Inr l6)"
    and sp: "sp = \<lparr>outcome_spans = l1, speed_spans = l2, hedge_spans = l3,
                 super_spans = l4, proof_spans = l5, buzz_spans = l6,
                 mech_spans = l7, values_spans = l8,
                 metric_spans = find_spans_regex (re_number_unit A) s,
                 timeframe_spans = find_spans_regex (re_timeframe A) s,
                 baseline_spans = find_spans_regex (re_baseline A) s,
                 scope_spans = find_spans_regex (re_scope A) s,
                 passive_spans = find_spans_regex (re_passive A) s\<rparr>"
    by (auto simp: collect_spans_def Let_def bindr_eq_Inr)
  note ok = l[THEN lex_spans_ok, OF len]
  from ok find_spans_regex_ok[of "re_passive A" s] rx show ?thesis by (simp add: sp)
qed

lemma penalty_rules_spans:
  "r \<in> set (penalty_rules rt f sp s s_l) \<Longrightarrow>
     snd (snd (snd r)) \<in> {outcome_spans sp, speed_spans sp, super_spans sp, proof_spans sp,
        buzz_spans sp, passive_spans sp, [\<lparr>span_start = 0, span_end = length s, span_text = s\<rparr>]}"
  by (auto simp: penalty_rules_def)

lemma flag_spans_in_range:
  assumes r: "analyze_sentence rt A s = Some (Inr a)"
    and len: "length (str_lower rt s) = length s"
    and rx: "\<forall>m \<in> set (re_passive A s). fst m \<le> snd m \<and> snd m \<le> length s"
  shows "\<forall>fl \<in> set (flags a). \<forall>x \<in> set (flag_spans fl). span_ok s x"
proof -
  from r obtain sp cls P B st bon where
    c: "collect_spans rt A s = Some (Inr sp)"
    and st: "penalties_of rt P (features_of sp) sp s (str_lower rt s) = Inr st"
    and a: "a = \<lparr>sentence = s, semantic_class = cls, features = features_of sp, flags = snd st,
          score_breakdown = \<lparr>penalties = fst st, bonus = bon\<rparr>,
          total_score = max 0 (min 100 (fst st - bon))\<rparr>"
    by (rule analyze_sentence_Inr)
  let ?rs = "penalty_rules rt (features_of sp) sp s (str_lower rt s)"
  from st have "run_rules P ?rs (0, []) = Inr st" by (simp add: penalties_of_run_rules)
  from run_rules_Inr[OF this] have fl: "snd st = map rule_flag (filter fst ?rs)" by simp
  note ok = collect_spans_ok[OF c len rx]
  have whole: "span_ok s \<lparr>span_start = 0, span_end = length s, span_text = s\<rparr>"
    by (simp add: span_ok_def slice_def)
  show ?thesis
  proof (intro ballI)
    fix f x assume f: "f \<in> set (flags a)" and x: "x \<in> set (flag_spans f)"
    from f a fl obtain r where r: "r \<in> set ?rs" and fr: "f = rule_flag r" by auto
    from x fr have x': "x \<in> set (snd (snd (snd r)))" by (simp add: rule_flag_def make_flag_def)
    from penalty_rules_spans[OF r] x' ok whole show "span_ok s x" by auto
  qed
qed

text \<open>
  Two small runs of the phrase scan: adjacent occurrences both match and an overlapping
  one does not; the spans follow the order of the phrases, not of the text.
\<close>

lemma adjacent_not_overlapping_example:
  "find_phrase_spans sample_rt (ustr_of ''aaaaa'') [ustr_of ''aa''] (ustr_of ''AAaaa'')
     = Some [\<lparr>span_start = 0, span_end = 2, span_text = ustr_of ''AA''\<rparr>,
             \<lparr>span_start = 2, span_end = 4, span_text = ustr_of ''aa''\<rparr>]"
  by code_simp

lemma phrase_list_order_example:
  "find_phrase_spans sample_rt (ustr_of ''ab'') [ustr_of ''B'', ustr_of ''a''] (ustr_of ''aB'')
     = Some [\<lparr>span_start = 1, span_end = 2, span_text = ustr_of ''B''\<rparr>,
             \<lparr>span_start = 0, span_end = 1, span_text = ustr_of ''a''\<rparr>]"
  by code_simp

end
